theory Spec2Isabelle
  imports Main "HOL-Library.Code_Target_Nat"
begin

section \<open>The transcript windowing routine of \<open>src/lib/parseTranscript.ts\<close>\<close>

text \<open>
  A shallow embedding of \<open>hhmmssToSeconds\<close>, \<open>secondsToHHMMSS\<close> and
  \<open>splitTranscriptIntoWindows\<close>, together with the pieces of the JavaScript runtime they
  call (\<open>String.prototype.trim\<close>, \<open>split\<close>, \<open>replace\<close>, \<open>padStart\<close>, \<open>join\<close>,
  \<open>RegExp.prototype.test\<close>, \<open>Object.entries\<close>, \<open>Array.prototype.sort\<close>).

  \<^item> A JavaScript string is a \<open>string\<close>: each \<open>char\<close> stands for one code unit below 256.
  \<^item> A JavaScript number is a \<open>nat\<close>; \<open>windowMinutes\<close> is a natural number, as the
    positive integer of the specification. Sums, differences and products of the window
    arithmetic are rounded to the nearest double (\<open>roundD\<close>), which changes nothing up to
    \<open>2^53\<close>. The texts \<open>from\<close> and \<open>to\<close> are followed up to \<open>numberLimit\<close>; beyond it the
    model says \<open>None\<close> for them instead of a text.
  \<^item> Where the source would leave the naturals in the loop (\<open>NaN\<close> from \<open>Number\<close> of a
    non-numeric field, \<open>Infinity\<close> or \<open>NaN\<close> from a division by a zero window length) the model
    returns \<open>None\<close>, so that the absence of such values is a theorem, not an assumption.
\<close>

subsection \<open>Strings\<close>

definition LF :: char where
  "LF = CHR 0x0A"

definition CR :: char where
  "CR = CHR 0x0D"

text \<open>
  The code units below 256 that ECMAScript counts as \<open>WhiteSpace\<close> or \<open>LineTerminator\<close>:
  TAB, LF, VT, FF, CR, SP and NBSP. Both \<open>trim\<close> and the regular expression class \<open>\s\<close> use
  this set.
\<close>

definition isWhiteSpace :: "char \<Rightarrow> bool" where
  "isWhiteSpace c =
     (c = CHR 0x09 \<or> c = CHR 0x0A \<or> c = CHR 0x0B \<or> c = CHR 0x0C \<or> c = CHR 0x0D \<or>
      c = CHR 0x20 \<or> c = CHR 0xA0)"

text \<open>The regular expression class \<open>\d\<close>: the ten ASCII digits.\<close>

definition isDigit :: "char \<Rightarrow> bool" where
  "isDigit c = (c = CHR ''0'' \<or> c = CHR ''1'' \<or> c = CHR ''2'' \<or> c = CHR ''3'' \<or> c = CHR ''4'' \<or>
                c = CHR ''5'' \<or> c = CHR ''6'' \<or> c = CHR ''7'' \<or> c = CHR ''8'' \<or> c = CHR ''9'')"

text \<open>\<open>s.trim()\<close>: the string without its leading and trailing white space.\<close>

definition trim :: "string \<Rightarrow> string" where
  "trim s = rev (dropWhile isWhiteSpace (rev (dropWhile isWhiteSpace s)))"

text \<open>\<open>s.replace(/\r\n/g, "\n")\<close>: every CR LF pair, scanning from the left, becomes LF.\<close>

fun replace_crlf :: "string \<Rightarrow> string" where
  "replace_crlf (c # d # s) =
     (if c = CR \<and> d = LF then LF # replace_crlf s else c # replace_crlf (d # s))"
| "replace_crlf s = s"

text \<open>\<open>s.replace(/\r/g, "\n")\<close>: every CR becomes LF.\<close>

definition replace_cr :: "string \<Rightarrow> string" where
  "replace_cr s = map (\<lambda>c. if c = CR then LF else c) s"

text \<open>
  \<open>s.split(sep)\<close> for a one-character separator: the pieces between the separators;
  the empty string gives one empty piece.
\<close>

fun split_at :: "char \<Rightarrow> string \<Rightarrow> string \<Rightarrow> string list" where
  "split_at sep piece [] = [rev piece]"
| "split_at sep piece (c # s) =
     (if c = sep then rev piece # split_at sep [] s else split_at sep (c # piece) s)"

definition split :: "char \<Rightarrow> string \<Rightarrow> string list" where
  "split sep s = split_at sep [] s"

text \<open>\<open>xs.join("\n")\<close>.\<close>

fun join :: "string \<Rightarrow> string list \<Rightarrow> string" where
  "join sep [] = []"
| "join sep [x] = x"
| "join sep (x # y # xs) = x @ sep @ join sep (y # xs)"

text \<open>
  \<open>s.padStart(targetLength, fill)\<close>: the fill string, repeated and cut to the missing length,
  in front of \<open>s\<close>; a string that is long enough is returned as it is.
\<close>

definition padStart :: "nat \<Rightarrow> string \<Rightarrow> string \<Rightarrow> string" where
  "padStart targetLength fill s =
     (if targetLength \<le> length s \<or> fill = [] then s
      else take (targetLength - length s) (concat (replicate (targetLength - length s) fill)) @ s)"

subsection \<open>Numbers and their decimal text\<close>

definition digitChar :: "nat \<Rightarrow> char" where
  "digitChar d = ''0123456789'' ! d"

text \<open>\<open>n.toString()\<close> of a non-negative integer: its decimal digits, without leading zeros.\<close>

fun toString :: "nat \<Rightarrow> string" where
  "toString n = (if n < 10 then [digitChar n] else toString (n div 10) @ [digitChar (n mod 10)])"

declare toString.simps [simp del]

definition digitValue :: "char \<Rightarrow> nat" where
  "digitValue c = of_char c - 48"

text \<open>
  \<open>Number(s)\<close> on the strings this file passes to it: a non-empty string of decimal digits
  is its decimal value, leading zeros included. On any other string the model gives \<open>None\<close>:
  in the source that is \<open>NaN\<close>, or a number written in a form (blank text, a sign, a
  fraction, an exponent, a radix prefix) that the routine never hands to \<open>Number\<close>.
\<close>

definition Number :: "string \<Rightarrow> nat option" where
  "Number s =
     (if s \<noteq> [] \<and> list_all isDigit s then Some (foldl (\<lambda>a c. 10 * a + digitValue c) 0 s)
      else None)"

text \<open>
  \<open>hhmmssToSeconds\<close>: \<open>parts = s.split(":").map(Number)\<close>, then
  \<open>parts[0] * 3600 + parts[1] * 60 + parts[2]\<close>. Pieces beyond the third are ignored; a
  missing piece is \<open>undefined\<close> and the sum is \<open>NaN\<close>. The sum is exact in the source
  while it stays at most \<open>2^53\<close>; for the two-digit fields of a marker it is at most 362439.
\<close>

definition hhmmssToSeconds :: "string \<Rightarrow> nat option" where
  "hhmmssToSeconds s =
     (case map Number (split CHR '':'' s) of
        Some h # Some m # Some sec # _ \<Rightarrow> Some (h * 3600 + m * 60 + sec)
      | _ \<Rightarrow> None)"

subsection \<open>Double arithmetic on naturals\<close>

text \<open>The number of binary digits of a natural number.\<close>

fun bitLength :: "nat \<Rightarrow> nat" where
  "bitLength n = (if n = 0 then 0 else Suc (bitLength (n div 2)))"

declare bitLength.simps [simp del]

text \<open>
  The double nearest to a natural number, ties to the even significand. A double has 53
  significant binary digits, so every natural up to \<open>2^53\<close> is a double; a larger one loses
  its lowest \<open>bitLength n - 53\<close> digits. (The exponent range is not modelled: the model's
  \<open>from\<close> and \<open>to\<close> stop at \<open>numberLimit\<close>, far below the largest double.)
\<close>

definition roundD :: "nat \<Rightarrow> nat" where
  "roundD n =
     (if n \<le> 2 ^ 53 then n
      else (let e = bitLength n - 53;
                q = n div 2 ^ e;
                r = n mod 2 ^ e;
                half = 2 ^ (e - 1)
            in if r < half \<or> (r = half \<and> even q) then q * 2 ^ e else (q + 1) * 2 ^ e))"

text \<open>
  The operators \<open>*\<close>, \<open>+\<close> and \<open>-\<close> of the source on non-negative integral doubles: the
  exact result, rounded. (\<open>subD\<close> is used with a first operand that is not smaller than the
  second.)
\<close>

definition mulD :: "nat \<Rightarrow> nat \<Rightarrow> nat" where
  "mulD a b = roundD (a * b)"

definition addD :: "nat \<Rightarrow> nat \<Rightarrow> nat" where
  "addD a b = roundD (a + b)"

definition subD :: "nat \<Rightarrow> nat \<Rightarrow> nat" where
  "subD a b = roundD (a - b)"

text \<open>
  The limit of the modelled numbers in the texts \<open>from\<close> and \<open>to\<close>. Below it the quotient
  \<open>sec / 3600\<close> is less than \<open>2^42\<close>, where doubles are at most \<open>2^-11\<close> apart: the rounded
  quotient is off by at most \<open>2^-12\<close>, less than \<open>1/3600\<close>, so \<open>Math.floor\<close> of it is
  \<open>sec div 3600\<close>; \<open>%\<close> is exact on doubles; and \<open>toString\<close> of the hours, an integer below
  \<open>2^53\<close>, is its decimal text.
\<close>

definition numberLimit :: nat where
  "numberLimit = 3600 * 2 ^ 42"

text \<open>
  \<open>secondsToHHMMSS\<close>, for an integral double \<open>sec\<close> below \<open>numberLimit\<close>. For a larger
  argument the source has rounded quotients and, from \<open>1e21\<close>, exponent notation; the model
  gives \<open>None\<close> there.
\<close>

definition secondsToHHMMSS :: "nat \<Rightarrow> string option" where
  "secondsToHHMMSS sec =
     (if sec < numberLimit then
        (let hours = sec div 3600;
             minutes = (sec mod 3600) div 60;
             seconds = sec mod 60
         in Some (padStart 2 ''0'' (toString hours) @ '':'' @
                  padStart 2 ''0'' (toString minutes) @ '':'' @
                  padStart 2 ''0'' (toString seconds)))
      else None)"

subsection \<open>The regular expression\<close>

text \<open>
  The pattern \<open>/^\d{2}:\d{2}:\d{2}\s*$/\<close> is a sequence of quantified character classes
  between the anchors \<open>^\<close> and \<open>$\<close>. It has no flags, so the anchors are the two ends of the
  tested string.
\<close>

datatype charClass = Digit | WhiteSpace | Literal char

datatype quantifier = Exactly nat | ZeroOrMore

type_synonym regex = "(charClass \<times> quantifier) list"

fun inClass :: "charClass \<Rightarrow> char \<Rightarrow> bool" where
  "inClass Digit c = isDigit c"
| "inClass WhiteSpace c = isWhiteSpace c"
| "inClass (Literal l) c = (c = l)"

text \<open>
  A backtracking matcher: \<open>matchHere p s\<close> holds when the pattern \<open>p\<close> followed by \<open>$\<close>
  matches all of \<open>s\<close>. The greedy \<open>*\<close> first tries to take one more character and falls
  back to the rest of the pattern.
\<close>

fun matchHere :: "regex \<Rightarrow> string \<Rightarrow> bool" where
  "matchHere [] s = (s = [])"
| "matchHere ((cl, Exactly n) # p) s =
     (if n = 0 then matchHere p s
      else (case s of
              [] \<Rightarrow> False
            | c # s' \<Rightarrow> inClass cl c \<and> matchHere ((cl, Exactly (n - 1)) # p) s'))"
| "matchHere ((cl, ZeroOrMore) # p) [] = matchHere p []"
| "matchHere ((cl, ZeroOrMore) # p) (c # s) =
     ((inClass cl c \<and> matchHere ((cl, ZeroOrMore) # p) s) \<or> matchHere p (c # s))"

declare matchHere.simps(2) [simp del]

text \<open>\<open>re.test(s)\<close> for a pattern that starts with \<open>^\<close> and ends with \<open>$\<close>.\<close>

definition test :: "regex \<Rightarrow> string \<Rightarrow> bool" where
  "test re s = matchHere re s"

definition timestampRegex :: regex where
  "timestampRegex =
     [(Digit, Exactly 2), (Literal CHR '':'', Exactly 1),
      (Digit, Exactly 2), (Literal CHR '':'', Exactly 1),
      (Digit, Exactly 2), (WhiteSpace, ZeroOrMore)]"

subsection \<open>\<open>splitTranscriptIntoWindows\<close>\<close>

text \<open>
  The type \<open>Window\<close>. Its fields \<open>from\<close> and \<open>text\<close> are keywords here, so all four fields
  carry the suffix \<open>_w\<close>. The fields \<open>from\<close> and \<open>to\<close> are \<open>Some\<close> text, or \<open>None\<close> where
  their computation leaves the modelled numbers.
\<close>

record window =
  index_w :: nat
  from_w :: "string option"
  to_w :: "string option"
  text_w :: string

text \<open>
  The loop that looks for the first timestamp line. \<open>None\<close> stands for the source's \<open>-1\<close>.
\<close>

fun firstTimestampFrom :: "nat \<Rightarrow> string list \<Rightarrow> nat option" where
  "firstTimestampFrom i [] = None"
| "firstTimestampFrom i (l # ls) =
     (if test timestampRegex l then Some i else firstTimestampFrom (Suc i) ls)"

definition firstTimestampIndex :: "string list \<Rightarrow> nat option" where
  "firstTimestampIndex ls = firstTimestampFrom 0 ls"

text \<open>
  \<open>windowContents\<close> is an object keyed by the window index; the model keeps its properties
  in insertion order. \<open>pushLine\<close> is
  \<open>if (!windowContents[k]) windowContents[k] = []; windowContents[k].push(line)\<close>.
\<close>

type_synonym contents = "(nat \<times> string list) list"

fun pushLine :: "nat \<Rightarrow> string \<Rightarrow> contents \<Rightarrow> contents" where
  "pushLine k line [] = [(k, [line])]"
| "pushLine k line ((k', ls) # wc) =
     (if k' = k then (k', ls @ [line]) # wc else (k', ls) # pushLine k line wc)"

text \<open>
  The body of the loop over \<open>relevantLines\<close>, on the pair of \<open>currentWindowIndex\<close> and
  \<open>windowContents\<close> (\<open>currentTimestamp\<close> is read only in the line that follows its
  assignment). A division by a zero \<open>windowDurationSeconds\<close> leaves the naturals. For a
  positive one, \<open>Math.floor\<close> of the rounded quotient of two integral doubles is their
  \<open>div\<close> when the dividend is below \<open>2^53\<close>, as the seconds of a marker are.
\<close>

fun lineStep :: "nat \<Rightarrow> string \<Rightarrow> nat \<times> contents \<Rightarrow> (nat \<times> contents) option" where
  "lineStep windowDurationSeconds line (currentWindowIndex, windowContents) =
     (if test timestampRegex line then
        (case hhmmssToSeconds (trim line) of
           None \<Rightarrow> None
         | Some currentTimestamp \<Rightarrow>
             if windowDurationSeconds = 0 then None
             else Some (currentTimestamp div windowDurationSeconds, windowContents))
      else Some (currentWindowIndex, pushLine currentWindowIndex line windowContents))"

fun groupLines :: "nat \<Rightarrow> string list \<Rightarrow> nat \<times> contents \<Rightarrow> (nat \<times> contents) option" where
  "groupLines wds [] st = Some st"
| "groupLines wds (line # ls) st =
     (case lineStep wds line st of None \<Rightarrow> None | Some st' \<Rightarrow> groupLines wds ls st')"

text \<open>
  \<open>Object.entries(windowContents)\<close>: the keys are non-negative integers (array indices: a
  two-digit timestamp is at most 362439 seconds), which are enumerated in ascending numeric
  order; \<open>Number.parseInt\<close> of a key reads the index back.
\<close>

definition entries :: "contents \<Rightarrow> contents" where
  "entries wc = sort_key fst wc"

text \<open>The loop that collapses blank lines, with its flag \<open>lastWasEmpty\<close>.\<close>

fun processLines :: "bool \<Rightarrow> string list \<Rightarrow> string list" where
  "processLines lastWasEmpty [] = []"
| "processLines lastWasEmpty (line # ls) =
     (if trim line = [] then
        (if \<not> lastWasEmpty then [] # processLines True ls else processLines True ls)
      else line # processLines False ls)"

definition windowText :: "string list \<Rightarrow> string" where
  "windowText ls = trim (join [LF] (processLines False ls))"

text \<open>
  The texts \<open>from\<close> and \<open>to\<close> of a window:
  \<open>fromSeconds = windowIndex * windowDurationSeconds\<close>,
  \<open>toSeconds = fromSeconds + windowDurationSeconds - 1\<close>, each operation rounded as the
  source's doubles are. A window length at or above \<open>numberLimit\<close> (in the source it may
  even be \<open>Infinity\<close>, with \<open>0 * Infinity = NaN\<close>) is outside the modelled numbers, and so
  is a window length of zero (\<open>toSeconds\<close> would be \<open>-1\<close>).
\<close>

definition windowBounds :: "nat \<Rightarrow> nat \<Rightarrow> string option \<times> string option" where
  "windowBounds windowDurationSeconds windowIndex =
     (let fromSeconds = mulD windowIndex windowDurationSeconds;
          toSeconds = subD (addD fromSeconds windowDurationSeconds) 1
      in if 0 < windowDurationSeconds \<and> windowDurationSeconds < numberLimit
         then (secondsToHHMMSS fromSeconds, secondsToHHMMSS toSeconds)
         else (None, None))"

text \<open>The loop over the entries, which pushes a window for each non-empty text.\<close>

fun buildWindows :: "nat \<Rightarrow> contents \<Rightarrow> window list" where
  "buildWindows windowDurationSeconds [] = []"
| "buildWindows windowDurationSeconds ((windowIndex, ls) # es) =
     (let text = windowText ls in
      if length text > 0 then
        \<lparr>index_w = windowIndex,
         from_w = fst (windowBounds windowDurationSeconds windowIndex),
         to_w = snd (windowBounds windowDurationSeconds windowIndex), text_w = text\<rparr>
        # buildWindows windowDurationSeconds es
      else buildWindows windowDurationSeconds es)"

text \<open>The lines of the normalised input.\<close>

definition inputLines :: "string \<Rightarrow> string list" where
  "inputLines raw = split LF (trim (replace_cr (replace_crlf raw)))"

text \<open>
  The object \<open>windowContents\<close> after the loop over \<open>relevantLines\<close>; \<open>Some []\<close> when the
  routine returns before the loop.
\<close>

definition windowContentsOf :: "string \<Rightarrow> nat \<Rightarrow> contents option" where
  "windowContentsOf raw windowMinutes =
     (let ls = inputLines raw in
      case firstTimestampIndex ls of
        None \<Rightarrow> Some []
      | Some firstIndex \<Rightarrow>
          (let relevantLines = drop firstIndex ls;
               windowDurationSeconds = mulD windowMinutes 60
           in map_option snd (groupLines windowDurationSeconds relevantLines (0, []))))"

definition splitTranscriptIntoWindows :: "string \<Rightarrow> nat \<Rightarrow> window list option" where
  "splitTranscriptIntoWindows raw windowMinutes =
     (let ls = inputLines raw in
      case firstTimestampIndex ls of
        None \<Rightarrow> Some []
      | Some firstIndex \<Rightarrow>
          (let relevantLines = drop firstIndex ls;
               windowDurationSeconds = mulD windowMinutes 60
           in case groupLines windowDurationSeconds relevantLines (0, []) of
                None \<Rightarrow> None
              | Some (currentWindowIndex, windowContents) \<Rightarrow>
                  Some (sort_key index_w
                          (buildWindows windowDurationSeconds (entries windowContents)))))"

subsection \<open>Notions of the specification\<close>

text \<open>The lines of the input with its line endings normalised, before the trim.\<close>

definition rawLines :: "string \<Rightarrow> string list" where
  "rawLines raw = split LF (replace_cr (replace_crlf raw))"

text \<open>
  A timestamp marker in the specification's words: exactly two digits, a colon, two digits, a
  colon, two digits, then nothing but white space.
\<close>

definition isMarkerLine :: "string \<Rightarrow> bool" where
  "isMarkerLine l =
     (case l of
        h1 # h2 # c1 # m1 # m2 # c2 # s1 # s2 # sp \<Rightarrow>
          isDigit h1 \<and> isDigit h2 \<and> c1 = CHR '':'' \<and> isDigit m1 \<and> isDigit m2 \<and>
          c2 = CHR '':'' \<and> isDigit s1 \<and> isDigit s2 \<and> list_all isWhiteSpace sp
      | _ \<Rightarrow> False)"

text \<open>
  The value of a two-digit field of a timestamp: the components \<open>H\<close>, \<open>M\<close> and \<open>S\<close> of the
  marker \<open>h1 h2 : m1 m2 : s1 s2\<close> are \<open>twoDigits h1 h2\<close>, \<open>twoDigits m1 m2\<close> and
  \<open>twoDigits s1 s2\<close>.
\<close>

definition twoDigits :: "char \<Rightarrow> char \<Rightarrow> nat" where
  "twoDigits a b = 10 * digitValue a + digitValue b"

text \<open>The seconds \<open>H * 3600 + M * 60 + S\<close> of a marker line.\<close>

definition markerSeconds :: "string \<Rightarrow> nat" where
  "markerSeconds l =
     (case l of
        h1 # h2 # c1 # m1 # m2 # c2 # s1 # s2 # sp \<Rightarrow>
          twoDigits h1 h2 * 3600 + twoDigits m1 m2 * 60 + twoDigits s1 s2
      | _ \<Rightarrow> 0)"

text \<open>
  The walk over the lines in the specification's words: a marker line sets the current
  window index and is no content; any other line is content of the current window index.
  The result lists the content lines in their order, each with its window index.
\<close>

fun taggedContent :: "nat \<Rightarrow> nat \<Rightarrow> string list \<Rightarrow> (nat \<times> string) list" where
  "taggedContent wds cur [] = []"
| "taggedContent wds cur (l # ls) =
     (if isMarkerLine l then taggedContent wds (markerSeconds l div wds) ls
      else (cur, l) # taggedContent wds cur ls)"

text \<open>The bucket of a window index: the lines stored under it, none when the key is absent.\<close>

definition bucket :: "contents \<Rightarrow> nat \<Rightarrow> string list" where
  "bucket wc k = (case map_of wc k of None \<Rightarrow> [] | Some ls \<Rightarrow> ls)"

text \<open>A blank line has nothing but white space.\<close>

definition isBlank :: "string \<Rightarrow> bool" where
  "isBlank l = list_all isWhiteSpace l"

text \<open>
  The collapse of blank lines in the specification's words: a maximal run of consecutive blank
  lines becomes one empty separator line, and a line that is not blank is kept as it is.
\<close>

function collapseBlankRuns :: "string list \<Rightarrow> string list" where
  "collapseBlankRuns [] = []"
| "collapseBlankRuns (l # ls) =
     (if isBlank l then [] # collapseBlankRuns (dropWhile isBlank ls)
      else l # collapseBlankRuns ls)"
  by pat_completeness auto
termination
  by (relation "measure length") (auto simp: length_dropWhile_le le_imp_less_Suc)

text \<open>
  A clock text in the strict sense: two digits, a colon, two digits, a colon, two digits.
\<close>

definition isClockText :: "string \<Rightarrow> bool" where
  "isClockText s =
     (case s of
        [h1, h2, c1, m1, m2, c2, s1, s2] \<Rightarrow>
          isDigit h1 \<and> isDigit h2 \<and> c1 = CHR '':'' \<and> isDigit m1 \<and> isDigit m2 \<and>
          c2 = CHR '':'' \<and> isDigit s1 \<and> isDigit s2
      | _ \<Rightarrow> False)"

text \<open>
  A clock text whose hours field may be longer: at least two digits, a colon, two digits, a
  colon, two digits.
\<close>

definition isPaddedClockText :: "string \<Rightarrow> bool" where
  "isPaddedClockText s =
     (case split CHR '':'' s of
        [hh, mm, ss] \<Rightarrow>
          list_all isDigit hh \<and> 2 \<le> length hh \<and> list_all isDigit mm \<and> length mm = 2 \<and>
          list_all isDigit ss \<and> length ss = 2
      | _ \<Rightarrow> False)"

section \<open>Characters\<close>

lemma digit_not_ws: "isDigit c \<Longrightarrow> \<not> isWhiteSpace c"
  by (auto simp: isDigit_def isWhiteSpace_def)

lemma digit_not_colon: "isDigit c \<Longrightarrow> c \<noteq> CHR '':''"
  by (auto simp: isDigit_def)

lemma colon_not_ws [simp]: "\<not> isWhiteSpace CHR '':''"
  by (simp add: isWhiteSpace_def)

lemma colon_not_digit [simp]: "\<not> isDigit CHR '':''"
  by (simp add: isDigit_def)

lemma ws_not_colon: "isWhiteSpace c \<Longrightarrow> c \<noteq> CHR '':''"
  by auto

section \<open>The regular expression\<close>

lemma matchHere_Exactly_0 [simp]: "matchHere ((cl, Exactly 0) # p) s = matchHere p s"
  by (simp add: matchHere.simps(2))

lemma matchHere_Exactly_Nil [simp]: "0 < n \<Longrightarrow> matchHere ((cl, Exactly n) # p) [] = False"
  by (simp add: matchHere.simps(2))

lemma matchHere_Exactly_Cons [simp]:
  "0 < n \<Longrightarrow> matchHere ((cl, Exactly n) # p) (c # s) =
     (inClass cl c \<and> matchHere ((cl, Exactly (n - 1)) # p) s)"
  by (simp add: matchHere.simps(2))

lemma matchHere_ws_star: "matchHere [(WhiteSpace, ZeroOrMore)] s = list_all isWhiteSpace s"
  by (induction s) auto

lemma timestamp_shape_matches:
  assumes "isDigit d1" "isDigit d2" "isDigit d3" "isDigit d4" "isDigit d5" "isDigit d6"
    and "list_all isWhiteSpace ws"
  shows "test timestampRegex ([d1, d2, CHR '':'', d3, d4, CHR '':'', d5, d6] @ ws)"
  using assms by (simp add: test_def timestampRegex_def matchHere_ws_star)

lemma timestamp_matches_shape:
  assumes "test timestampRegex line"
  shows "\<exists>d1 d2 d3 d4 d5 d6 ws. line = [d1, d2, CHR '':'', d3, d4, CHR '':'', d5, d6] @ ws \<and>
           isDigit d1 \<and> isDigit d2 \<and> isDigit d3 \<and> isDigit d4 \<and> isDigit d5 \<and> isDigit d6 \<and>
           list_all isWhiteSpace ws"
proof -
  note defs = test_def timestampRegex_def
  from assms obtain c1 r1 where 1: "line = c1 # r1"
    by (cases line) (auto simp: defs)
  from assms 1 obtain c2 r2 where 2: "r1 = c2 # r2"
    by (cases r1) (auto simp: defs)
  from assms 1 2 obtain c3 r3 where 3: "r2 = c3 # r3"
    by (cases r2) (auto simp: defs)
  from assms 1 2 3 obtain c4 r4 where 4: "r3 = c4 # r4"
    by (cases r3) (auto simp: defs)
  from assms 1 2 3 4 obtain c5 r5 where 5: "r4 = c5 # r5"
    by (cases r4) (auto simp: defs)
  from assms 1 2 3 4 5 obtain c6 r6 where 6: "r5 = c6 # r6"
    by (cases r5) (auto simp: defs)
  from assms 1 2 3 4 5 6 obtain c7 r7 where 7: "r6 = c7 # r7"
    by (cases r6) (auto simp: defs)
  from assms 1 2 3 4 5 6 7 obtain c8 r8 where 8: "r7 = c8 # r8"
    by (cases r7) (auto simp: defs)
  from assms show ?thesis
    unfolding 1 2 3 4 5 6 7 8
    by (simp add: defs matchHere_ws_star)
qed

section \<open>trim\<close>

lemma dropWhile_all_iff: "(dropWhile P xs = []) = list_all P xs"
  by (simp add: list_all_iff)

lemma trim_Nil_iff: "(trim s = []) = list_all isWhiteSpace s"
proof -
  have "(trim s = []) = list_all isWhiteSpace (dropWhile isWhiteSpace s)"
    by (simp add: trim_def list_all_iff)
  also have "\<dots> = (dropWhile isWhiteSpace s = [])"
    by (metis dropWhile_all_iff dropWhile_idem)
  finally show ?thesis by (simp add: list_all_iff)
qed

lemma trim_blank_iff: "(trim s = []) = isBlank s"
  by (simp add: trim_Nil_iff isBlank_def)

lemma trim_body:
  assumes "\<not> isWhiteSpace a" "\<not> isWhiteSpace z" "list_all isWhiteSpace ws"
  shows "trim (a # mid @ z # ws) = a # mid @ [z]"
proof -
  have "dropWhile isWhiteSpace (rev ws @ z # rev mid @ [a]) = z # rev mid @ [a]"
    using assms by (simp add: dropWhile_append list_all_iff)
  then show ?thesis
    using assms by (simp add: trim_def)
qed

lemma trim_timestamp:
  assumes "isDigit d1" "isDigit d6" "list_all isWhiteSpace ws"
  shows "trim ([d1, d2, c1, d3, d4, c2, d5, d6] @ ws) = [d1, d2, c1, d3, d4, c2, d5, d6]"
  using trim_body [of d1 d6 ws "[d2, c1, d3, d4, c2, d5]"] assms
  by (simp add: digit_not_ws)

section \<open>split, Number, hhmmssToSeconds\<close>

lemma split_at_no_sep: "sep \<notin> set s \<Longrightarrow> split_at sep piece s = [rev piece @ s]"
  by (induction s arbitrary: piece) auto

lemma split_at_sep:
  "sep \<notin> set a \<Longrightarrow> split_at sep piece (a @ sep # s) = (rev piece @ a) # split_at sep [] s"
  by (induction a arbitrary: piece) auto

lemma split_three:
  assumes "sep \<notin> set a" "sep \<notin> set b" "sep \<notin> set c"
  shows "split sep (a @ sep # b @ sep # c) = [a, b, c]"
  using assms by (simp add: split_def split_at_sep split_at_no_sep)

lemma digitValue_digits [simp]:
  "digitValue CHR ''0'' = 0" "digitValue CHR ''1'' = 1" "digitValue CHR ''2'' = 2"
  "digitValue CHR ''3'' = 3" "digitValue CHR ''4'' = 4" "digitValue CHR ''5'' = 5"
  "digitValue CHR ''6'' = 6" "digitValue CHR ''7'' = 7" "digitValue CHR ''8'' = 8"
  "digitValue CHR ''9'' = 9"
  by (simp_all add: digitValue_def)

lemma Number_two: "isDigit a \<Longrightarrow> isDigit b \<Longrightarrow> Number [a, b] = Some (twoDigits a b)"
  by (simp add: Number_def twoDigits_def)

lemma hhmmssToSeconds_clock:
  assumes "isDigit h1" "isDigit h2" "isDigit m1" "isDigit m2" "isDigit s1" "isDigit s2"
  shows "hhmmssToSeconds [h1, h2, CHR '':'', m1, m2, CHR '':'', s1, s2] =
           Some (twoDigits h1 h2 * 3600 + twoDigits m1 m2 * 60 + twoDigits s1 s2)"
proof -
  have "split CHR '':'' ([h1, h2] @ CHR '':'' # [m1, m2] @ CHR '':'' # [s1, s2]) =
          [[h1, h2], [m1, m2], [s1, s2]]"
    using assms by (intro split_three) (auto dest: digit_not_colon)
  then show ?thesis
    using assms by (simp add: hhmmssToSeconds_def Number_two)
qed

lemma hhmmssToSeconds_marker:
  assumes "isDigit h1" "isDigit h2" "isDigit m1" "isDigit m2" "isDigit s1" "isDigit s2"
    and "list_all isWhiteSpace ws"
  shows "hhmmssToSeconds (trim ([h1, h2, CHR '':'', m1, m2, CHR '':'', s1, s2] @ ws)) =
           Some (twoDigits h1 h2 * 3600 + twoDigits m1 m2 * 60 + twoDigits s1 s2)"
  using assms by (simp only: trim_timestamp hhmmssToSeconds_clock)

lemma marker_has_seconds:
  "test timestampRegex line \<Longrightarrow> \<exists>t. hhmmssToSeconds (trim line) = Some t"
  using timestamp_matches_shape [of line] hhmmssToSeconds_marker by blast

section \<open>Marker lines in the specification's words\<close>

lemma isMarkerLine_shape:
  "isMarkerLine l =
     (\<exists>d1 d2 d3 d4 d5 d6 ws. l = [d1, d2, CHR '':'', d3, d4, CHR '':'', d5, d6] @ ws \<and>
        isDigit d1 \<and> isDigit d2 \<and> isDigit d3 \<and> isDigit d4 \<and> isDigit d5 \<and> isDigit d6 \<and>
        list_all isWhiteSpace ws)"
  by (auto simp: isMarkerLine_def split: list.splits)

lemma test_is_marker: "test timestampRegex l = isMarkerLine l"
proof
  assume "test timestampRegex l"
  then show "isMarkerLine l"
    unfolding isMarkerLine_shape by (rule timestamp_matches_shape)
next
  assume "isMarkerLine l"
  then obtain d1 d2 d3 d4 d5 d6 ws where
    "l = [d1, d2, CHR '':'', d3, d4, CHR '':'', d5, d6] @ ws"
    "isDigit d1" "isDigit d2" "isDigit d3" "isDigit d4" "isDigit d5" "isDigit d6"
    "list_all isWhiteSpace ws"
    unfolding isMarkerLine_shape by blast
  then show "test timestampRegex l"
    using timestamp_shape_matches by blast
qed

lemma digitValue_le: "isDigit c \<Longrightarrow> digitValue c \<le> 9"
  by (auto simp: isDigit_def)

lemma twoDigits_le: "isDigit a \<Longrightarrow> isDigit b \<Longrightarrow> twoDigits a b \<le> 99"
  using digitValue_le [of a] digitValue_le [of b] by (simp add: twoDigits_def)

lemma marker_seconds:
  assumes "isMarkerLine l"
  shows "hhmmssToSeconds (trim l) = Some (markerSeconds l)" and "markerSeconds l \<le> 362439"
proof -
  from assms obtain h1 h2 m1 m2 s1 s2 sp where
    l: "l = [h1, h2, CHR '':'', m1, m2, CHR '':'', s1, s2] @ sp" and
    d: "isDigit h1" "isDigit h2" "isDigit m1" "isDigit m2" "isDigit s1" "isDigit s2" and
    sp: "list_all isWhiteSpace sp"
    unfolding isMarkerLine_shape by blast
  have m: "markerSeconds l = twoDigits h1 h2 * 3600 + twoDigits m1 m2 * 60 + twoDigits s1 s2"
    by (simp add: l markerSeconds_def)
  show "hhmmssToSeconds (trim l) = Some (markerSeconds l)"
    unfolding m unfolding l using d sp by (intro hhmmssToSeconds_marker)
  show "markerSeconds l \<le> 362439"
    unfolding m using twoDigits_le [OF d(1,2)] twoDigits_le [OF d(3,4)] twoDigits_le [OF d(5,6)]
    by simp
qed

section \<open>Rounding to doubles\<close>

lemma bitLength_bounds:
  "0 < n \<Longrightarrow> n < 2 ^ bitLength n \<and> 2 ^ (bitLength n - 1) \<le> n"
proof (induction n rule: bitLength.induct)
  case (1 n)
  show ?case
  proof (cases "n div 2 = 0")
    case True
    with "1.prems" have "n = Suc 0" by (simp add: div_eq_0_iff)
    moreover have "bitLength (Suc 0) = Suc 0"
      by (simp add: bitLength.simps [of "Suc 0"] bitLength.simps [of 0])
    ultimately show ?thesis
      by simp
  next
    case False
    from "1.prems" have b: "bitLength n = Suc (bitLength (n div 2))"
      by (simp add: bitLength.simps [of n])
    from False "1.prems" "1.IH" have
      u: "n div 2 < 2 ^ bitLength (n div 2)" and
      l: "2 ^ (bitLength (n div 2) - 1) \<le> n div 2"
      by simp_all
    from False have p: "0 < bitLength (n div 2)"
      by (simp add: bitLength.simps [of "n div 2"])
    from u have "n < 2 * 2 ^ bitLength (n div 2)"
      by linarith
    moreover from l have "2 * 2 ^ (bitLength (n div 2) - 1) \<le> n"
      by linarith
    moreover from p have "(2::nat) * 2 ^ (bitLength (n div 2) - 1) = 2 ^ bitLength (n div 2)"
      by (cases "bitLength (n div 2)") simp_all
    ultimately show ?thesis
      by (simp add: b)
  qed
qed

lemma roundD_small: "n \<le> 2 ^ 53 \<Longrightarrow> roundD n = n"
  by (simp add: roundD_def)

lemma roundD_large:
  assumes "2 ^ 53 < n"
  shows "2 ^ 53 \<le> roundD n"
proof -
  define e where "e = bitLength n - 53"
  define q where "q = n div 2 ^ e"
  from assms have n: "0 < n" by simp
  from bitLength_bounds [OF n] have u: "n < 2 ^ bitLength n" and l: "2 ^ (bitLength n - 1) \<le> n"
    by simp_all
  from assms u have "(2::nat) ^ 53 < 2 ^ bitLength n"
    by linarith
  then have b: "53 < bitLength n"
    using power_less_imp_less_exp [of 2 53 "bitLength n"] by simp
  then have e: "bitLength n - 1 = 52 + e" "1 \<le> e"
    by (simp_all add: e_def)
  have "(2::nat) ^ (bitLength n - 1) = 2 ^ 52 * 2 ^ e"
    by (simp only: e(1) power_add)
  with l have "2 ^ 52 * 2 ^ e \<le> n"
    by simp
  then have "(2 ^ 52 * 2 ^ e) div 2 ^ e \<le> n div 2 ^ e"
    by (rule div_le_mono)
  then have q: "2 ^ 52 \<le> q"
    by (simp add: q_def)
  from e(2) have "(2::nat) ^ 1 \<le> 2 ^ e"
    by (intro power_increasing) simp_all
  then have "(2::nat) \<le> 2 ^ e" by simp
  with q have "2 ^ 52 * 2 \<le> q * 2 ^ e"
    by (rule mult_le_mono)
  then have 1: "2 ^ 53 \<le> q * 2 ^ e" by simp
  then have 2: "2 ^ 53 \<le> (q + 1) * 2 ^ e"
    by (simp add: add_mult_distrib)
  from assms 1 2 show ?thesis
    by (simp add: roundD_def Let_def e_def [symmetric] q_def [symmetric])
qed

lemma roundD_pos: "0 < n \<Longrightarrow> 0 < roundD n"
proof (cases "n \<le> 2 ^ 53")
  case True
  assume "0 < n"
  with True show ?thesis by (simp add: roundD_small)
next
  case False
  then have "2 ^ 53 \<le> roundD n"
    by (intro roundD_large) simp
  then show ?thesis by simp
qed

lemma div_roundD:
  assumes "t < 2 ^ 53"
  shows "t div roundD n = t div n"
proof (cases "n \<le> 2 ^ 53")
  case True
  then show ?thesis by (simp add: roundD_small)
next
  case False
  then have "2 ^ 53 \<le> roundD n"
    by (intro roundD_large) simp
  with assms False show ?thesis
    by simp
qed

lemma mulD_pos: "0 < a \<Longrightarrow> 0 < b \<Longrightarrow> 0 < mulD a b"
  by (simp add: mulD_def roundD_pos)

lemma marker_index_rounded:
  "isMarkerLine l \<Longrightarrow>
     markerSeconds l div mulD windowMinutes 60 = markerSeconds l div (windowMinutes * 60)"
  unfolding mulD_def using marker_seconds(2) [of l] by (intro div_roundD) simp

lemma isClockText_shape:
  "isClockText ts \<Longrightarrow> \<exists>e1 e2 e3 e4 e5 e6. ts = [e1, e2, CHR '':'', e3, e4, CHR '':'', e5, e6] \<and>
     isDigit e1 \<and> isDigit e2 \<and> isDigit e3 \<and> isDigit e4 \<and> isDigit e5 \<and> isDigit e6"
  by (auto simp: isClockText_def split: list.splits)

lemma clock_inside_marker:
  assumes eq: "pre @ [e1, e2, CHR '':'', e3, e4, CHR '':'', e5, e6] @ post =
               [d1, d2, CHR '':'', d3, d4, CHR '':'', d5, d6] @ ws"
    and e: "isDigit e1" "isDigit e2"
    and d: "isDigit d1" "isDigit d2" "isDigit d3" "isDigit d4" "isDigit d5" "isDigit d6"
    and ws: "list_all isWhiteSpace ws"
  shows "pre = [] \<and> post = ws"
proof -
  have nws: "\<not> isWhiteSpace e1" "\<not> isWhiteSpace e2"
    using e by (auto dest: digit_not_ws)
  have nc: "e1 \<noteq> CHR '':''" "e2 \<noteq> CHR '':''"
    using e by (auto dest: digit_not_colon)
  show ?thesis
    using eq nws nc d ws
    by (auto simp: append_eq_Cons_conv Cons_eq_append_conv list_all_iff)
qed

section \<open>The object \<open>windowContents\<close>\<close>

lemma pushLine_keys: "fst ` set (pushLine k l wc) = insert k (fst ` set wc)"
  by (induction wc) (force split: if_splits)+

lemma pushLine_distinct:
  "distinct (map fst wc) \<Longrightarrow> distinct (map fst (pushLine k l wc))"
proof (induction wc)
  case Nil
  then show ?case by simp
next
  case (Cons e wc)
  obtain k' ls where e: "e = (k', ls)" by (cases e)
  have "k' \<noteq> k \<Longrightarrow> k' \<notin> fst ` set (pushLine k l wc)"
    using Cons.prems e by (simp only: pushLine_keys) auto
  with Cons e show ?case by auto
qed

lemma bucket_pushLine:
  "bucket (pushLine k l wc) k' = (if k' = k then bucket wc k @ [l] else bucket wc k')"
  by (induction wc) (auto simp: bucket_def)

lemma bucket_pushLines:
  "bucket (foldl (\<lambda>c l. pushLine k l c) wc ls) k' =
     (if k' = k then bucket wc k @ ls else bucket wc k')"
  by (induction ls arbitrary: wc) (auto simp: bucket_pushLine)

lemma pushLines_distinct:
  "distinct (map fst wc) \<Longrightarrow> distinct (map fst (foldl (\<lambda>c l. pushLine k l c) wc ls))"
  by (induction ls arbitrary: wc) (auto simp: pushLine_distinct)

lemma bucket_distinct:
  "distinct (map fst wc) \<Longrightarrow> (k, ls) \<in> set wc \<Longrightarrow> bucket wc k = ls"
  by (simp add: bucket_def)

section \<open>The loop over the relevant lines\<close>

lemma lineStep_content:
  "\<not> test timestampRegex line \<Longrightarrow>
     lineStep wds line (cur, wc) = Some (cur, pushLine cur line wc)"
  by simp

lemma lineStep_marker:
  "test timestampRegex line \<Longrightarrow> 0 < wds \<Longrightarrow> hhmmssToSeconds (trim line) = Some t \<Longrightarrow>
     lineStep wds line (cur, wc) = Some (t div wds, wc)"
  by simp

lemma lineStep_zero:
  "test timestampRegex line \<Longrightarrow> lineStep 0 line st = None"
  by (cases st) (simp split: option.splits)

lemma lineStep_total:
  assumes "0 < wds"
  shows "\<exists>st'. lineStep wds line st = Some st'"
proof (cases "test timestampRegex line")
  case True
  then obtain t where "hhmmssToSeconds (trim line) = Some t"
    using marker_has_seconds by blast
  with True assms show ?thesis
    by (cases st) simp
next
  case False
  then show ?thesis by (cases st) simp
qed

lemma groupLines_total:
  "0 < wds \<Longrightarrow> \<exists>st'. groupLines wds ls st = Some st'"
proof (induction ls arbitrary: st)
  case Nil
  then show ?case by simp
next
  case (Cons line ls)
  from Cons.prems obtain st1 where "lineStep wds line st = Some st1"
    using lineStep_total by blast
  with Cons show ?case by simp
qed

lemma groupLines_content:
  "\<forall>l\<in>set content. \<not> test timestampRegex l \<Longrightarrow>
     groupLines wds (content @ rest) (cur, wc) =
     groupLines wds rest (cur, foldl (\<lambda>c l. pushLine cur l c) wc content)"
  by (induction content arbitrary: wc) simp_all

lemma lineStep_distinct:
  "lineStep wds line (cur, wc) = Some (cur', wc') \<Longrightarrow> distinct (map fst wc) \<Longrightarrow>
     distinct (map fst wc')"
  by (auto simp: pushLine_distinct split: if_splits option.splits)

lemma groupLines_distinct:
  "groupLines wds ls (cur, wc) = Some (cur', wc') \<Longrightarrow> distinct (map fst wc) \<Longrightarrow>
     distinct (map fst wc')"
proof (induction ls arbitrary: cur wc)
  case Nil
  then show ?case by simp
next
  case (Cons line ls)
  from Cons.prems(1) obtain c1 w1 where
    s: "lineStep wds line (cur, wc) = Some (c1, w1)" and
    g: "groupLines wds ls (c1, w1) = Some (cur', wc')"
    by (auto split: option.splits)
  from s Cons.prems(2) have "distinct (map fst w1)"
    by (rule lineStep_distinct)
  with g show ?case by (rule Cons.IH)
qed

text \<open>The window index that a marker line stands for.\<close>

lemma lineStep_keys:
  assumes "lineStep wds line (cur, wc) = Some (cur', wc')"
  shows "(test timestampRegex line \<and> wc' = wc \<and>
            (\<exists>t. hhmmssToSeconds (trim line) = Some t \<and> cur' = t div wds)) \<or>
         (\<not> test timestampRegex line \<and> cur' = cur \<and>
            fst ` set wc' = insert cur (fst ` set wc))"
proof (cases "test timestampRegex line")
  case True
  with assms show ?thesis
    by (auto split: option.splits if_splits)
next
  case False
  with assms have "cur' = cur" "wc' = pushLine cur line wc"
    by auto
  with False show ?thesis
    by (simp only: pushLine_keys) simp
qed

lemma groupLines_keys:
  assumes "groupLines wds ls (cur, wc) = Some (cur', wc')"
    and "k \<in> fst ` set wc'"
  shows "k \<in> fst ` set wc \<or> k = cur \<or>
         (\<exists>m\<in>set ls. test timestampRegex m \<and>
            (\<exists>t. hhmmssToSeconds (trim m) = Some t \<and> k = t div wds))"
  using assms
proof (induction ls arbitrary: cur wc)
  case Nil
  then show ?case by simp
next
  case (Cons line ls)
  from Cons.prems(1) obtain c1 w1 where
    s: "lineStep wds line (cur, wc) = Some (c1, w1)" and
    g: "groupLines wds ls (c1, w1) = Some (cur', wc')"
    by (auto split: option.splits)
  from Cons.IH [OF g Cons.prems(2)] consider
    (old) "k \<in> fst ` set w1" | (cur) "k = c1" |
    (later) "\<exists>m\<in>set ls. test timestampRegex m \<and>
            (\<exists>t. hhmmssToSeconds (trim m) = Some t \<and> k = t div wds)"
    by blast
  then show ?case
  proof cases
    case old
    with lineStep_keys [OF s] show ?thesis by auto
  next
    case cur
    with lineStep_keys [OF s] show ?thesis by auto
  next
    case later
    then show ?thesis by auto
  qed
qed

lemma groupLines_keys_marker_first:
  assumes "groupLines wds (m0 # ls) (cur, []) = Some (cur', wc')"
    and "test timestampRegex m0"
    and "k \<in> fst ` set wc'"
  shows "\<exists>m\<in>set (m0 # ls). test timestampRegex m \<and>
            (\<exists>t. hhmmssToSeconds (trim m) = Some t \<and> k = t div wds)"
proof -
  from assms(1) obtain c1 w1 where
    s: "lineStep wds m0 (cur, []) = Some (c1, w1)" and
    g: "groupLines wds ls (c1, w1) = Some (cur', wc')"
    by (auto split: option.splits)
  from lineStep_keys [OF s] assms(2) obtain t where
    w1: "w1 = []" and t: "hhmmssToSeconds (trim m0) = Some t" "c1 = t div wds"
    by auto
  from groupLines_keys [OF g assms(3)] w1 t assms(2) show ?thesis
    by auto
qed

section \<open>The search for the first timestamp\<close>

lemma firstTimestampFrom_None:
  "(firstTimestampFrom i ls = None) = (\<forall>l\<in>set ls. \<not> test timestampRegex l)"
  by (induction ls arbitrary: i) auto

lemma firstTimestampFrom_Some:
  "firstTimestampFrom i ls = Some j \<Longrightarrow>
     i \<le> j \<and> j - i < length ls \<and> test timestampRegex (ls ! (j - i)) \<and>
     (\<forall>n < j - i. \<not> test timestampRegex (ls ! n))"
proof (induction ls arbitrary: i)
  case Nil
  then show ?case by simp
next
  case (Cons l ls)
  show ?case
  proof (cases "test timestampRegex l")
    case True
    with Cons.prems show ?thesis by simp
  next
    case False
    with Cons.prems have "firstTimestampFrom (Suc i) ls = Some j" by simp
    from Cons.IH [OF this] have
      j: "Suc i \<le> j" "j - Suc i < length ls" "test timestampRegex (ls ! (j - Suc i))"
      "\<forall>n < j - Suc i. \<not> test timestampRegex (ls ! n)"
      by auto
    from j(1) have e: "j - i = Suc (j - Suc i)" by simp
    show ?thesis
      using j False unfolding e by (auto simp: nth_Cons split: nat.splits)
  qed
qed

lemma firstTimestampIndex_None:
  "(firstTimestampIndex ls = None) = (\<forall>l\<in>set ls. \<not> test timestampRegex l)"
  by (simp add: firstTimestampIndex_def firstTimestampFrom_None)

lemma firstTimestampIndex_Some:
  assumes "firstTimestampIndex ls = Some j"
  shows "drop j ls = ls ! j # drop (Suc j) ls" and "test timestampRegex (ls ! j)"
    and "j < length ls"
  using firstTimestampFrom_Some [of 0 ls j] assms
  by (simp_all add: firstTimestampIndex_def Cons_nth_drop_Suc)

section \<open>Decimal text\<close>

lemma below_ten: "(d::nat) < 10 \<Longrightarrow>
    d = 0 \<or> d = 1 \<or> d = 2 \<or> d = 3 \<or> d = 4 \<or> d = 5 \<or> d = 6 \<or> d = 7 \<or> d = 8 \<or> d = 9"
  by arith

lemma digitChar_digit: "d < 10 \<Longrightarrow> isDigit (digitChar d)"
  using below_ten [of d] by (auto simp: digitChar_def isDigit_def)

lemma digitValue_digitChar: "d < 10 \<Longrightarrow> digitValue (digitChar d) = d"
  using below_ten [of d] by (auto simp: digitChar_def)

lemma toString_digits: "list_all isDigit (toString n)"
proof (induction n rule: toString.induct)
  case (1 n)
  show ?case
  proof (cases "n < 10")
    case True
    then show ?thesis
      by (simp add: toString.simps [of n] digitChar_digit)
  next
    case False
    with 1 show ?thesis
      by (simp add: toString.simps [of n] digitChar_digit)
  qed
qed

lemma toString_nonempty: "toString n \<noteq> []"
  by (simp add: toString.simps [of n])

lemma toString_value: "foldl (\<lambda>a c. 10 * a + digitValue c) 0 (toString n) = n"
proof (induction n rule: toString.induct)
  case (1 n)
  show ?case
  proof (cases "n < 10")
    case True
    then show ?thesis
      by (simp add: toString.simps [of n] digitValue_digitChar)
  next
    case False
    with 1 have "foldl (\<lambda>a c. 10 * a + digitValue c) 0 (toString (n div 10)) = n div 10"
      by simp
    with False show ?thesis
      by (simp add: toString.simps [of n] digitValue_digitChar)
  qed
qed

lemma toString_length_small: "n < 10 \<Longrightarrow> length (toString n) = 1"
  by (simp add: toString.simps [of n])

lemma toString_length_two: "n < 100 \<Longrightarrow> length (toString n) \<le> 2"
  by (simp add: toString.simps [of n] toString_length_small)

lemma toString_length_pos: "1 \<le> length (toString n)"
  using toString_nonempty [of n] by (cases "toString n") simp_all

lemma toString_length_three: "100 \<le> n \<Longrightarrow> 3 \<le> length (toString n)"
proof -
  assume n: "100 \<le> n"
  then have "10 \<le> n div 10" by simp
  then have "2 \<le> length (toString (n div 10))"
    using toString_length_pos [of "n div 10 div 10"]
    by (simp add: toString.simps [of "n div 10"])
  with n show ?thesis
    by (simp add: toString.simps [of n])
qed

lemma padStart_zero:
  "padStart 2 ''0'' s = (if 2 \<le> length s then s else replicate (2 - length s) CHR ''0'' @ s)"
proof -
  have "concat (replicate k ''0'') = replicate k CHR ''0''" for k
    by (induction k) simp_all
  then show ?thesis
    by (simp add: padStart_def)
qed

lemma padStart_digits: "list_all isDigit s \<Longrightarrow> list_all isDigit (padStart 2 ''0'' s)"
  by (simp add: padStart_zero list_all_iff isDigit_def)

lemma leading_zeros_value:
  "foldl (\<lambda>a c. 10 * a + digitValue c) 0 (replicate k CHR ''0'') = 0"
  by (induction k) simp_all

lemma Number_padStart_toString: "Number (padStart 2 ''0'' (toString n)) = Some n"
proof -
  have "list_all isDigit (padStart 2 ''0'' (toString n))"
    by (rule padStart_digits) (rule toString_digits)
  moreover have "padStart 2 ''0'' (toString n) \<noteq> []"
    using toString_nonempty [of n] by (simp add: padStart_zero)
  moreover have "foldl (\<lambda>a c. 10 * a + digitValue c) 0 (padStart 2 ''0'' (toString n)) = n"
    by (simp add: padStart_zero leading_zeros_value toString_value)
  ultimately show ?thesis
    by (simp add: Number_def)
qed

lemma padStart_length_two: "n < 100 \<Longrightarrow> length (padStart 2 ''0'' (toString n)) = 2"
  using toString_length_two [of n] toString_length_pos [of n]
  by (simp add: padStart_zero)

lemma padStart_length_ge: "2 \<le> length (padStart 2 ''0'' (toString n))"
  by (simp add: padStart_zero)

lemma digits_no_colon: "list_all isDigit s \<Longrightarrow> CHR '':'' \<notin> set s"
  by (auto simp: list_all_iff)

section \<open>\<open>secondsToHHMMSS\<close> and back\<close>

lemma limit_above_safe: "(2::nat) ^ 53 < numberLimit"
  by (simp add: numberLimit_def)

lemma secondsToHHMMSS_fields:
  "sec < numberLimit \<Longrightarrow>
   secondsToHHMMSS sec =
     Some (padStart 2 ''0'' (toString (sec div 3600)) @ CHR '':'' #
           padStart 2 ''0'' (toString (sec mod 3600 div 60)) @ CHR '':'' #
           padStart 2 ''0'' (toString (sec mod 60)))"
  by (simp add: secondsToHHMMSS_def Let_def)

lemma secondsToHHMMSS_None: "numberLimit \<le> sec \<Longrightarrow> secondsToHHMMSS sec = None"
  by (simp add: secondsToHHMMSS_def)

lemma hms_sum: "(sec::nat) div 3600 * 3600 + sec mod 3600 div 60 * 60 + sec mod 60 = sec"
proof -
  have "sec mod 60 = sec mod 3600 mod 60"
    by (simp add: mod_mod_cancel)
  then have "sec mod 3600 div 60 * 60 + sec mod 60 = sec mod 3600"
    by simp
  then show ?thesis
    by (simp add: add.assoc)
qed

text \<open>The clock text of a modelled number: its parts, its shape and its value.\<close>

lemma secondsToHHMMSS_text:
  assumes "sec < numberLimit"
  shows "\<exists>s. secondsToHHMMSS sec = Some s \<and> hhmmssToSeconds s = Some sec \<and>
           isPaddedClockText s \<and> (sec < 360000 \<longrightarrow> isClockText s)"
proof -
  let ?h = "padStart 2 ''0'' (toString (sec div 3600))"
  let ?m = "padStart 2 ''0'' (toString (sec mod 3600 div 60))"
  let ?s = "padStart 2 ''0'' (toString (sec mod 60))"
  let ?t = "?h @ CHR '':'' # ?m @ CHR '':'' # ?s"
  have t: "secondsToHHMMSS sec = Some ?t"
    using assms by (rule secondsToHHMMSS_fields)
  have d: "list_all isDigit ?h" "list_all isDigit ?m" "list_all isDigit ?s"
    by (simp_all add: padStart_digits toString_digits)
  have sp: "split CHR '':'' ?t = [?h, ?m, ?s]"
    using d by (intro split_three digits_no_colon)
  have v: "hhmmssToSeconds ?t = Some sec"
    using sp hms_sum [of sec]
    by (simp add: hhmmssToSeconds_def Number_padStart_toString)
  have "sec mod 3600 div 60 < 100" "sec mod 60 < 100"
    by (simp_all add: less_mult_imp_div_less)
  then have l: "length ?m = 2" "length ?s = 2"
    by (simp_all add: padStart_length_two)
  have p: "isPaddedClockText ?t"
    using sp d l padStart_length_ge [of "sec div 3600"]
    by (simp add: isPaddedClockText_def)
  have c: "isClockText ?t" if "sec < 360000"
  proof -
    from that have "length ?h = 2"
      by (simp add: padStart_length_two less_mult_imp_div_less)
    with l obtain h1 h2 m1 m2 s1 s2 where "?h = [h1, h2]" "?m = [m1, m2]" "?s = [s1, s2]"
      by (auto simp: length_Suc_conv numeral_2_eq_2)
    with d show ?thesis
      by (simp add: isClockText_def)
  qed
  from t v p c show ?thesis
    by blast
qed

section \<open>The collapse of blank lines\<close>

lemma processLines_collapse:
  "processLines b ls =
     (if b then collapseBlankRuns (dropWhile isBlank ls) else collapseBlankRuns ls)"
  by (induction ls arbitrary: b) (simp_all add: trim_blank_iff)

lemma processLines_keeps_text:
  "filter (\<lambda>l. \<not> isBlank l) (processLines b ls) = filter (\<lambda>l. \<not> isBlank l) ls"
  by (induction ls arbitrary: b) (simp_all add: trim_blank_iff isBlank_def)

lemma processLines_True_blank: "list_all isBlank ls \<Longrightarrow> processLines True ls = []"
  by (induction ls) (simp_all add: trim_blank_iff)

lemma processLines_blank:
  "list_all isBlank ls \<Longrightarrow> processLines False ls = [] \<or> processLines False ls = [[]]"
  by (cases ls) (simp_all add: trim_blank_iff processLines_True_blank)

lemma trim_empty: "trim [] = []"
  by (simp add: trim_def)

lemma windowText_blank: "list_all isBlank ls \<Longrightarrow> windowText ls = []"
  using processLines_blank [of ls] by (auto simp: windowText_def trim_empty)

section \<open>The windows of the entries\<close>

lemma buildWindows_index:
  "map index_w (buildWindows wds es) = map fst (filter (\<lambda>(k, ls). windowText ls \<noteq> []) es)"
  by (induction es) (auto simp: Let_def)

lemma buildWindows_member:
  "w \<in> set (buildWindows wds es) \<Longrightarrow>
     \<exists>ls. (index_w w, ls) \<in> set es \<and> text_w w = windowText ls \<and> windowText ls \<noteq> [] \<and>
          from_w w = fst (windowBounds wds (index_w w)) \<and>
          to_w w = snd (windowBounds wds (index_w w))"
proof (induction es)
  case Nil
  then show ?case by simp
next
  case (Cons e es)
  obtain k ls where e: "e = (k, ls)" by (cases e)
  show ?case
  proof (cases "windowText ls = []")
    case True
    with Cons e obtain ls' where "(index_w w, ls') \<in> set es" "text_w w = windowText ls'"
      "windowText ls' \<noteq> []" "from_w w = fst (windowBounds wds (index_w w))"
      "to_w w = snd (windowBounds wds (index_w w))"
      by (auto simp: Let_def)
    then show ?thesis by auto
  next
    case False
    let ?w = "\<lparr>index_w = k, from_w = fst (windowBounds wds k),
               to_w = snd (windowBounds wds k), text_w = windowText ls\<rparr>"
    from False Cons.prems e have "w = ?w \<or> w \<in> set (buildWindows wds es)"
      by (simp add: Let_def)
    then show ?thesis
    proof
      assume "w = ?w"
      with False e show ?thesis by auto
    next
      assume "w \<in> set (buildWindows wds es)"
      from Cons.IH [OF this] show ?thesis by auto
    qed
  qed
qed

text \<open>
  While the end of the bucket stays at most \<open>2^53\<close>, no operation of \<open>windowBounds\<close>
  rounds.
\<close>

lemma windowBounds_exact:
  assumes "(k + 1) * wds \<le> 2 ^ 53" and "0 < wds"
  shows "windowBounds wds k = (secondsToHHMMSS (k * wds), secondsToHHMMSS (k * wds + wds - 1))"
    and "k * wds + wds - 1 < numberLimit"
proof -
  from assms(1) have s: "k * wds + wds \<le> 2 ^ 53"
    by (simp add: add_mult_distrib)
  then have f: "k * wds \<le> 2 ^ 53" and w: "wds \<le> 2 ^ 53" and t: "k * wds + wds - 1 \<le> 2 ^ 53"
    by linarith+
  from w limit_above_safe have l: "wds < numberLimit"
    by linarith
  from t limit_above_safe show "k * wds + wds - 1 < numberLimit"
    by linarith
  have "mulD k wds = k * wds"
    using f by (simp only: mulD_def roundD_small)
  moreover have "addD (k * wds) wds = k * wds + wds"
    using s by (simp only: addD_def roundD_small)
  moreover have "subD (k * wds + wds) 1 = k * wds + wds - 1"
    using t by (simp only: subD_def roundD_small)
  ultimately show
    "windowBounds wds k = (secondsToHHMMSS (k * wds), secondsToHHMMSS (k * wds + wds - 1))"
    using l assms(2) by (simp add: windowBounds_def Let_def)
qed

lemma buildWindows_complete:
  "(k, ls) \<in> set es \<Longrightarrow> windowText ls \<noteq> [] \<Longrightarrow> k \<in> index_w ` set (buildWindows wds es)"
  by (induction es) (auto simp: Let_def)

lemma distinct_map_sort_key: "distinct (map f (sort_key g xs)) = distinct (map f xs)"
  by (simp add: distinct_map)

lemma entries_set: "set (entries wc) = set wc"
  by (simp add: entries_def)

lemma entries_distinct: "distinct (map fst (entries wc)) = distinct (map fst wc)"
  by (simp add: entries_def distinct_map_sort_key)

lemma windows_strictly_sorted:
  assumes "distinct (map fst wc)"
  shows "sorted_wrt (<) (map index_w (sort_key index_w (buildWindows wds (entries wc))))"
proof -
  have "distinct (map fst (filter (\<lambda>(k, ls). windowText ls \<noteq> []) (entries wc)))"
    using assms by (simp add: distinct_map_filter entries_distinct)
  then have "distinct (map index_w (buildWindows wds (entries wc)))"
    by (simp add: buildWindows_index)
  then have "distinct (map index_w (sort_key index_w (buildWindows wds (entries wc))))"
    by (simp only: distinct_map_sort_key)
  then show ?thesis
    by (simp add: strict_sorted_iff)
qed

section \<open>The routine as a pipeline\<close>

lemma split_no_timestamp:
  "firstTimestampIndex (inputLines raw) = None \<Longrightarrow>
     splitTranscriptIntoWindows raw wm = Some [] \<and> windowContentsOf raw wm = Some []"
  by (simp add: splitTranscriptIntoWindows_def windowContentsOf_def)

lemma split_unfold:
  "firstTimestampIndex (inputLines raw) = Some i \<Longrightarrow>
   groupLines (mulD wm 60) (drop i (inputLines raw)) (0, []) = Some (cur, wc) \<Longrightarrow>
     splitTranscriptIntoWindows raw wm =
       Some (sort_key index_w (buildWindows (mulD wm 60) (entries wc))) \<and>
     windowContentsOf raw wm = Some wc"
  by (simp add: splitTranscriptIntoWindows_def windowContentsOf_def Let_def)

lemma groupLines_result:
  "0 < wds \<Longrightarrow> \<exists>cur wc. groupLines wds ls st = Some (cur, wc)"
  using groupLines_total [of wds ls st] by auto

lemma marker_index_of_seconds:
  assumes "test timestampRegex m" and "hhmmssToSeconds (trim m) = Some t"
  shows "t div mulD wm 60 = t div (wm * 60)"
proof -
  from assms(1) have i: "isMarkerLine m"
    by (simp only: test_is_marker)
  from marker_seconds(1) [OF i] assms(2) have "t = markerSeconds m"
    by simp
  with marker_index_rounded [OF i, of wm] show ?thesis
    by simp
qed

lemma split_pipeline:
  assumes "0 < wm"
  shows "\<exists>wc. windowContentsOf raw wm = Some wc \<and>
           splitTranscriptIntoWindows raw wm =
             Some (sort_key index_w (buildWindows (mulD wm 60) (entries wc))) \<and>
           distinct (map fst wc) \<and>
           (\<forall>k\<in>fst ` set wc. \<exists>i m. firstTimestampIndex (inputLines raw) = Some i \<and>
               m \<in> set (drop i (inputLines raw)) \<and> test timestampRegex m \<and>
               (\<exists>t. hhmmssToSeconds (trim m) = Some t \<and> k = t div (wm * 60)))"
proof (cases "firstTimestampIndex (inputLines raw)")
  case None
  then have "windowContentsOf raw wm = Some [] \<and>
           splitTranscriptIntoWindows raw wm =
             Some (sort_key index_w (buildWindows (mulD wm 60) (entries []))) \<and>
           distinct (map fst ([] :: contents)) \<and>
           (\<forall>k\<in>fst ` set ([] :: contents). \<exists>i m. firstTimestampIndex (inputLines raw) = Some i \<and>
               m \<in> set (drop i (inputLines raw)) \<and> test timestampRegex m \<and>
               (\<exists>t. hhmmssToSeconds (trim m) = Some t \<and> k = t div (wm * 60)))"
    by (simp add: split_no_timestamp entries_def)
  then show ?thesis by (rule exI)
next
  case (Some i)
  define ls where "ls = inputLines raw"
  from assms have "0 < mulD wm 60"
    by (simp add: mulD_pos)
  then obtain cur wc where g: "groupLines (mulD wm 60) (drop i ls) (0, []) = Some (cur, wc)"
    using groupLines_result by blast
  have d: "distinct (map fst wc)"
    using groupLines_distinct [OF g] by simp
  have m0: "drop i ls = ls ! i # drop (Suc i) ls" and m1: "test timestampRegex (ls ! i)"
    using firstTimestampIndex_Some [OF Some] by (simp_all add: ls_def)
  have g': "groupLines (mulD wm 60) (ls ! i # drop (Suc i) ls) (0, []) = Some (cur, wc)"
    using g by (simp only: m0)
  have k: "\<exists>i m. firstTimestampIndex (inputLines raw) = Some i \<and>
               m \<in> set (drop i (inputLines raw)) \<and> test timestampRegex m \<and>
               (\<exists>t. hhmmssToSeconds (trim m) = Some t \<and> k = t div (wm * 60))"
    if "k \<in> fst ` set wc" for k
  proof -
    from groupLines_keys_marker_first [OF g' m1 that] obtain m t where
      m: "m \<in> set (ls ! i # drop (Suc i) ls)" "test timestampRegex m" and
      t: "hhmmssToSeconds (trim m) = Some t" "k = t div mulD wm 60"
      by blast
    from m(1) have "m \<in> set (drop i ls)"
      by (simp only: m0 [symmetric])
    then have 1: "m \<in> set (drop i (inputLines raw))"
      by (simp only: ls_def)
    from t(2) marker_index_of_seconds [OF m(2) t(1), of wm] have 2: "k = t div (wm * 60)"
      by simp
    from Some 1 m(2) t(1) 2 show ?thesis by blast
  qed
  from g have "splitTranscriptIntoWindows raw wm =
       Some (sort_key index_w (buildWindows (mulD wm 60) (entries wc))) \<and>
     windowContentsOf raw wm = Some wc"
    unfolding ls_def using Some by (intro split_unfold)
  with d k show ?thesis
    by blast
qed

lemma bucket_member:
  "bucket wc k \<noteq> [] \<Longrightarrow> (k, bucket wc k) \<in> set wc"
  by (auto simp: bucket_def dest: map_of_SomeD split: option.splits)

lemma processLines_after_text:
  "\<not> isBlank a \<Longrightarrow>
     processLines b0 (pre @ a # rest) = processLines b0 pre @ a # processLines False rest"
  by (induction pre arbitrary: b0) (simp_all add: trim_blank_iff)

lemma processLines_three_blank:
  assumes "isBlank e1" "isBlank e2" "isBlank e3" "\<not> isBlank b"
  shows "processLines False (e1 # e2 # e3 # b # post) = [] # b # processLines False post"
  using assms by (simp add: trim_blank_iff)

text \<open>The windows of the pipeline, read against the buckets.\<close>

lemma pipeline_window:
  assumes "distinct (map fst wc)"
    and "w \<in> set (sort_key index_w (buildWindows wds (entries wc)))"
  shows "text_w w = windowText (bucket wc (index_w w))" and "text_w w \<noteq> []"
    and "from_w w = fst (windowBounds wds (index_w w))"
    and "to_w w = snd (windowBounds wds (index_w w))"
proof -
  from assms(2) have "w \<in> set (buildWindows wds (entries wc))"
    by simp
  from buildWindows_member [OF this] obtain ls where
    m: "(index_w w, ls) \<in> set wc" and t: "text_w w = windowText ls" "windowText ls \<noteq> []" and
    f: "from_w w = fst (windowBounds wds (index_w w))"
       "to_w w = snd (windowBounds wds (index_w w))"
    by (auto simp: entries_set)
  from assms(1) m have "bucket wc (index_w w) = ls"
    by (rule bucket_distinct)
  with t f show "text_w w = windowText (bucket wc (index_w w))" "text_w w \<noteq> []"
    "from_w w = fst (windowBounds wds (index_w w))"
    "to_w w = snd (windowBounds wds (index_w w))"
    by simp_all
qed

lemma pipeline_complete:
  assumes "windowText (bucket wc k) \<noteq> []"
  shows "\<exists>w\<in>set (sort_key index_w (buildWindows wds (entries wc))). index_w w = k"
proof -
  from assms have "bucket wc k \<noteq> []"
    by (auto simp: windowText_def trim_empty)
  then have "(k, bucket wc k) \<in> set (entries wc)"
    by (simp add: bucket_member entries_set)
  from buildWindows_complete [OF this assms, of wds] show ?thesis
    by auto
qed

text \<open>The loops against the walk in the specification's words.\<close>

lemma groupLines_tagged:
  assumes "0 < wds" and "groupLines wds ls (cur, wc) = Some (cur', wc')"
  shows "bucket wc' k =
           bucket wc k @ map snd (filter (\<lambda>p. fst p = k) (taggedContent wds cur ls))"
  using assms(2)
proof (induction ls arbitrary: cur wc)
  case Nil
  then show ?case by simp
next
  case (Cons l ls)
  show ?case
  proof (cases "isMarkerLine l")
    case True
    then have t: "test timestampRegex l"
      by (simp only: test_is_marker)
    from t assms(1) marker_seconds(1) [OF True]
    have "lineStep wds l (cur, wc) = Some (markerSeconds l div wds, wc)"
      by (rule lineStep_marker)
    with Cons.prems have "groupLines wds ls (markerSeconds l div wds, wc) = Some (cur', wc')"
      by simp
    from Cons.IH [OF this] True show ?thesis
      by simp
  next
    case False
    then have t: "\<not> test timestampRegex l"
      by (simp add: test_is_marker)
    with Cons.prems have "groupLines wds ls (cur, pushLine cur l wc) = Some (cur', wc')"
      by simp
    from Cons.IH [OF this] False show ?thesis
      by (simp add: bucket_pushLine)
  qed
qed

lemma taggedContent_rounded:
  "taggedContent (mulD wm 60) cur ls = taggedContent (wm * 60) cur ls"
  by (induction ls arbitrary: cur) (simp_all add: marker_index_rounded)

lemma firstTimestampFrom_dropWhile:
  "firstTimestampFrom i ls = Some j \<Longrightarrow>
     drop (j - i) ls = dropWhile (\<lambda>l. \<not> isMarkerLine l) ls"
proof (induction ls arbitrary: i)
  case Nil
  then show ?case by simp
next
  case (Cons l ls)
  show ?case
  proof (cases "test timestampRegex l")
    case True
    with Cons.prems show ?thesis
      by (simp add: test_is_marker)
  next
    case False
    with Cons.prems have f: "firstTimestampFrom (Suc i) ls = Some j"
      by simp
    from firstTimestampFrom_Some [OF f] have "Suc i \<le> j"
      by simp
    then have "j - i = Suc (j - Suc i)"
      by simp
    with Cons.IH [OF f] False show ?thesis
      by (simp add: test_is_marker)
  qed
qed

lemma relevantLines_dropWhile:
  "firstTimestampIndex ls = Some i \<Longrightarrow> drop i ls = dropWhile (\<lambda>l. \<not> isMarkerLine l) ls"
  using firstTimestampFrom_dropWhile [of 0 ls i] by (simp add: firstTimestampIndex_def)

lemma no_marker_dropWhile:
  "firstTimestampIndex ls = None \<Longrightarrow> dropWhile (\<lambda>l. \<not> isMarkerLine l) ls = []"
  by (simp add: firstTimestampIndex_None test_is_marker)

lemma windowContents_tagged:
  assumes "0 < wm" and "windowContentsOf raw wm = Some wc"
  shows "bucket wc k =
           map snd (filter (\<lambda>p. fst p = k)
             (taggedContent (wm * 60) 0 (dropWhile (\<lambda>l. \<not> isMarkerLine l) (inputLines raw))))"
proof (cases "firstTimestampIndex (inputLines raw)")
  case None
  with assms(2) have "wc = []"
    by (simp add: windowContentsOf_def)
  with None show ?thesis
    by (simp add: no_marker_dropWhile bucket_def)
next
  case (Some i)
  with assms(2) obtain cur where
    g: "groupLines (mulD wm 60) (drop i (inputLines raw)) (0, []) = Some (cur, wc)"
    by (auto simp: windowContentsOf_def Let_def)
  from assms(1) have "0 < mulD wm 60"
    by (simp add: mulD_pos)
  from groupLines_tagged [OF this g, of k] show ?thesis
    by (simp add: bucket_def taggedContent_rounded relevantLines_dropWhile [OF Some])
qed

section \<open>The claims\<close>

text \<open>
  Claim C1. With a strictly positive window length, a marker line with the components \<open>H\<close>,
  \<open>M\<close> and \<open>S\<close> sets the current window index to \<open>(H * 3600 + M * 60 + S) div
  (windowMinutes * 60)\<close> and adds nothing to any bucket; the lines that follow it, up to the
  next marker, are appended in their order to the bucket of that index, and no other bucket
  changes. The same holds with the window length as the routine holds it, the double of
  \<open>windowMinutes * 60\<close>. A timestamp on a bucket boundary belongs to the next bucket:
  \<open>00:20:00\<close> with 20-minute windows has index 1.
\<close>

theorem marker_sets_current_window:
  assumes "0 < windowMinutes"
    and "line = [h1, h2, CHR '':'', m1, m2, CHR '':'', s1, s2] @ sp"
    and "isDigit h1" "isDigit h2" "isDigit m1" "isDigit m2" "isDigit s1" "isDigit s2"
    and "list_all isWhiteSpace sp"
    and "\<forall>l\<in>set content. \<not> test timestampRegex l"
    and "idx = (twoDigits h1 h2 * 3600 + twoDigits m1 m2 * 60 + twoDigits s1 s2) div
               (windowMinutes * 60)"
  shows "lineStep (windowMinutes * 60) line (cur, wc) = Some (idx, wc) \<and>
         (\<exists>wc'. groupLines (windowMinutes * 60) (line # content @ rest) (cur, wc) =
                  groupLines (windowMinutes * 60) rest (idx, wc') \<and>
                bucket wc' idx = bucket wc idx @ content \<and>
                (\<forall>k. k \<noteq> idx \<longrightarrow> bucket wc' k = bucket wc k)) \<and>
         lineStep (mulD windowMinutes 60) line (cur, wc) = Some (idx, wc) \<and>
         (\<exists>wc'. groupLines (mulD windowMinutes 60) (line # content @ rest) (cur, wc) =
                  groupLines (mulD windowMinutes 60) rest (idx, wc') \<and>
                bucket wc' idx = bucket wc idx @ content \<and>
                (\<forall>k. k \<noteq> idx \<longrightarrow> bucket wc' k = bucket wc k)) \<and>
         splitTranscriptIntoWindows (''00:20:00'' @ [LF] @ ''On the boundary'') 20 =
           Some [\<lparr>index_w = 1, from_w = Some ''00:20:00'', to_w = Some ''00:39:59'',
                   text_w = ''On the boundary''\<rparr>]"
proof -
  let ?wds = "windowMinutes * 60"
  let ?rds = "mulD windowMinutes 60"
  let ?wc' = "foldl (\<lambda>c l. pushLine idx l c) wc content"
  have t: "test timestampRegex line"
    unfolding assms(2) using assms(3-9) by (intro timestamp_shape_matches)
  have s: "hhmmssToSeconds (trim line) =
      Some (twoDigits h1 h2 * 3600 + twoDigits m1 m2 * 60 + twoDigits s1 s2)"
    unfolding assms(2) using assms(3-9) by (intro hhmmssToSeconds_marker)
  from assms(1) have p: "0 < ?wds" by simp
  have step: "lineStep ?wds line (cur, wc) = Some (idx, wc)"
    unfolding assms(11) using t p s by (rule lineStep_marker)
  have "groupLines ?wds (line # content @ rest) (cur, wc) =
        groupLines ?wds (content @ rest) (idx, wc)"
    using step by simp
  also have "\<dots> = groupLines ?wds rest (idx, ?wc')"
    using assms(10) by (rule groupLines_content)
  finally have g: "groupLines ?wds (line # content @ rest) (cur, wc) =
        groupLines ?wds rest (idx, ?wc')" .
  have b: "bucket ?wc' idx = bucket wc idx @ content"
    by (simp add: bucket_pushLines)
  have o: "\<forall>k. k \<noteq> idx \<longrightarrow> bucket ?wc' k = bucket wc k"
    by (simp add: bucket_pushLines)
  have x: "\<exists>wc'. groupLines ?wds (line # content @ rest) (cur, wc) =
                  groupLines ?wds rest (idx, wc') \<and>
                bucket wc' idx = bucket wc idx @ content \<and>
                (\<forall>k. k \<noteq> idx \<longrightarrow> bucket wc' k = bucket wc k)"
    using g b o by (intro exI [of _ ?wc'] conjI)
  from assms(1) have p': "0 < ?rds"
    by (simp add: mulD_pos)
  have i': "idx = (twoDigits h1 h2 * 3600 + twoDigits m1 m2 * 60 + twoDigits s1 s2) div ?rds"
    unfolding assms(11) using marker_index_of_seconds [OF t s, of windowMinutes] by simp
  have step': "lineStep ?rds line (cur, wc) = Some (idx, wc)"
    unfolding i' using t p' s by (rule lineStep_marker)
  have "groupLines ?rds (line # content @ rest) (cur, wc) =
        groupLines ?rds (content @ rest) (idx, wc)"
    using step' by simp
  also have "\<dots> = groupLines ?rds rest (idx, ?wc')"
    using assms(10) by (rule groupLines_content)
  finally have g': "groupLines ?rds (line # content @ rest) (cur, wc) =
        groupLines ?rds rest (idx, ?wc')" .
  have x': "\<exists>wc'. groupLines ?rds (line # content @ rest) (cur, wc) =
                  groupLines ?rds rest (idx, wc') \<and>
                bucket wc' idx = bucket wc idx @ content \<and>
                (\<forall>k. k \<noteq> idx \<longrightarrow> bucket wc' k = bucket wc k)"
    using g' b o by (intro exI [of _ ?wc'] conjI)
  have e: "splitTranscriptIntoWindows (''00:20:00'' @ [LF] @ ''On the boundary'') 20 =
           Some [\<lparr>index_w = 1, from_w = Some ''00:20:00'', to_w = Some ''00:39:59'',
                   text_w = ''On the boundary''\<rparr>]"
    by code_simp
  show ?thesis
    by (rule conjI [OF step conjI [OF x conjI [OF step' conjI [OF x' e]]]])
qed

theorem marker_sets_current_window_witness:
  "(0::nat) < 20 \<and>
   lineStep (20 * 60) ''00:20:00'' (0, []) = Some (1, []) \<and>
   (\<exists>wc'. groupLines (20 * 60) [''00:20:00'', ''first'', ''second'', ''00:00:00''] (0, []) =
            groupLines (20 * 60) [''00:00:00''] (1, wc') \<and>
          bucket wc' 1 = [''first'', ''second''] \<and> bucket wc' 0 = [])"
proof -
  have p: "(0::nat) < 20" by simp
  have d: "isDigit CHR ''0''" "isDigit CHR ''2''"
    by (simp_all add: isDigit_def)
  have c: "\<forall>l\<in>set [''first'', ''second'']. \<not> test timestampRegex l"
    by (simp add: test_def timestampRegex_def isDigit_def)
  have i: "(1::nat) = (twoDigits CHR ''0'' CHR ''0'' * 3600 + twoDigits CHR ''2'' CHR ''0'' * 60 +
             twoDigits CHR ''0'' CHR ''0'') div (20 * 60)"
    by (simp add: twoDigits_def)
  have l: "''00:20:00'' =
      [CHR ''0'', CHR ''0'', CHR '':'', CHR ''2'', CHR ''0'', CHR '':'', CHR ''0'', CHR ''0''] @ []"
    by simp
  have w: "list_all isWhiteSpace []" by simp
  note inst = marker_sets_current_window [OF p l d(1) d(1) d(2) d(1) d(1) d(1) w c i,
      of 0 "[]" "[''00:00:00'']"]
  from inst have 1: "lineStep (20 * 60) ''00:20:00'' (0, []) = Some (1, [])"
    by (rule conjunct1)
  from inst have "\<exists>wc'. groupLines (20 * 60) (''00:20:00'' # [''first'', ''second''] @ [''00:00:00''])
              (0, []) = groupLines (20 * 60) [''00:00:00''] (1, wc') \<and>
          bucket wc' 1 = bucket [] 1 @ [''first'', ''second''] \<and>
          (\<forall>k. k \<noteq> 1 \<longrightarrow> bucket wc' k = bucket [] k)"
    by (rule conjunct2 [THEN conjunct1])
  then obtain wc' where
    g: "groupLines (20 * 60) (''00:20:00'' # [''first'', ''second''] @ [''00:00:00'']) (0, []) =
        groupLines (20 * 60) [''00:00:00''] (1, wc')" and
    b: "bucket wc' 1 = bucket [] 1 @ [''first'', ''second'']" and
    o: "\<forall>k. k \<noteq> 1 \<longrightarrow> bucket wc' k = bucket [] k"
    by blast
  from o have o': "bucket wc' 0 = []"
    by (simp add: bucket_def)
  from b have b': "bucket wc' 1 = [''first'', ''second'']"
    by (simp add: bucket_def)
  from g have g': "groupLines (20 * 60) [''00:20:00'', ''first'', ''second'', ''00:00:00''] (0, []) =
            groupLines (20 * 60) [''00:00:00''] (1, wc')"
    by simp
  have 2: "\<exists>wc'. groupLines (20 * 60) [''00:20:00'', ''first'', ''second'', ''00:00:00''] (0, []) =
            groupLines (20 * 60) [''00:00:00''] (1, wc') \<and>
          bucket wc' 1 = [''first'', ''second''] \<and> bucket wc' 0 = []"
    using g' b' o' by (intro exI [of _ wc'] conjI)
  show ?thesis
    by (rule conjI [OF p conjI [OF 1 2]])
qed

text \<open>
  Claim C2, as the code has it. The pattern accepts a line exactly when it is two digits, a
  colon, two digits, a colon and two digits, followed by nothing but white space; a line that
  holds such a clock text with anything in front of it, or with anything but white space
  behind it, is not accepted. With a strictly positive window length, the routine treats the
  lines of the trimmed, line-ending-normalised input by that format alone: the lines before
  the first line of the format are dropped; from there on, a line of the format sets the
  current window index and is no content, and every other line is content of the current
  window index. The buckets hold exactly these content lines in their order, the text of
  every returned window is the cleaned text of the bucket of its index, and every bucket
  with a non-empty cleaned text has its window.
\<close>

theorem lines_treated_by_exact_format:
  assumes "0 < windowMinutes"
  shows "(\<forall>l. test timestampRegex l = isMarkerLine l) \<and>
         (\<forall>(pre::string) ts post.
            isClockText ts \<and> (pre \<noteq> [] \<or> \<not> list_all isWhiteSpace post) \<longrightarrow>
            \<not> test timestampRegex (pre @ ts @ post)) \<and>
         (\<exists>ws wc. splitTranscriptIntoWindows raw windowMinutes = Some ws \<and>
            windowContentsOf raw windowMinutes = Some wc \<and>
            (\<forall>k. bucket wc k =
                   map snd (filter (\<lambda>p. fst p = k)
                     (taggedContent (windowMinutes * 60) 0
                        (dropWhile (\<lambda>l. \<not> isMarkerLine l) (inputLines raw))))) \<and>
            (\<forall>w\<in>set ws. text_w w = windowText (bucket wc (index_w w))) \<and>
            (\<forall>k. windowText (bucket wc k) \<noteq> [] \<longrightarrow> (\<exists>w\<in>set ws. index_w w = k)))"
proof -
  have 1: "\<forall>l. test timestampRegex l = isMarkerLine l"
    by (simp add: test_is_marker)
  have 2: "\<forall>(pre::string) ts post.
            isClockText ts \<and> (pre \<noteq> [] \<or> \<not> list_all isWhiteSpace post) \<longrightarrow>
            \<not> test timestampRegex (pre @ ts @ post)"
  proof (intro allI impI)
    fix pre :: string and ts post
    assume a: "isClockText ts \<and> (pre \<noteq> [] \<or> \<not> list_all isWhiteSpace post)"
    show "\<not> test timestampRegex (pre @ ts @ post)"
    proof
      assume "test timestampRegex (pre @ ts @ post)"
      then obtain d1 d2 d3 d4 d5 d6 ws where
        l: "pre @ ts @ post = [d1, d2, CHR '':'', d3, d4, CHR '':'', d5, d6] @ ws" and
        d: "isDigit d1" "isDigit d2" "isDigit d3" "isDigit d4" "isDigit d5" "isDigit d6" and
        ws: "list_all isWhiteSpace ws"
        using timestamp_matches_shape by blast
      from a obtain e1 e2 e3 e4 e5 e6 where
        ts: "ts = [e1, e2, CHR '':'', e3, e4, CHR '':'', e5, e6]" and e: "isDigit e1" "isDigit e2"
        using isClockText_shape by blast
      have "pre @ [e1, e2, CHR '':'', e3, e4, CHR '':'', e5, e6] @ post =
            [d1, d2, CHR '':'', d3, d4, CHR '':'', d5, d6] @ ws"
        using l ts by simp
      then have "pre = [] \<and> post = ws"
        using e d ws by (rule clock_inside_marker)
      with a ws show False by simp
    qed
  qed
  from split_pipeline [OF assms, of raw] obtain wc where
    c: "windowContentsOf raw windowMinutes = Some wc" and
    s: "splitTranscriptIntoWindows raw windowMinutes =
          Some (sort_key index_w (buildWindows (mulD windowMinutes 60) (entries wc)))" and
    d: "distinct (map fst wc)"
    by blast
  let ?ws = "sort_key index_w (buildWindows (mulD windowMinutes 60) (entries wc))"
  have b: "\<forall>k. bucket wc k =
                   map snd (filter (\<lambda>p. fst p = k)
                     (taggedContent (windowMinutes * 60) 0
                        (dropWhile (\<lambda>l. \<not> isMarkerLine l) (inputLines raw))))"
    using windowContents_tagged [OF assms c] by (intro allI)
  have t: "\<forall>w\<in>set ?ws. text_w w = windowText (bucket wc (index_w w))"
    using pipeline_window(1) [OF d] by (intro ballI)
  have e: "\<forall>k. windowText (bucket wc k) \<noteq> [] \<longrightarrow> (\<exists>w\<in>set ?ws. index_w w = k)"
    using pipeline_complete by (intro allI impI)
  have 3: "\<exists>ws wc. splitTranscriptIntoWindows raw windowMinutes = Some ws \<and>
            windowContentsOf raw windowMinutes = Some wc \<and>
            (\<forall>k. bucket wc k =
                   map snd (filter (\<lambda>p. fst p = k)
                     (taggedContent (windowMinutes * 60) 0
                        (dropWhile (\<lambda>l. \<not> isMarkerLine l) (inputLines raw))))) \<and>
            (\<forall>w\<in>set ws. text_w w = windowText (bucket wc (index_w w))) \<and>
            (\<forall>k. windowText (bucket wc k) \<noteq> [] \<longrightarrow> (\<exists>w\<in>set ws. index_w w = k))"
    using s c b t e by (intro exI [of _ ?ws] exI [of _ wc] conjI)
  show ?thesis
    by (rule conjI [OF 1 conjI [OF 2 3]])
qed

theorem lines_treated_by_exact_format_witness:
  "(0::nat) < 20 \<and>
   test timestampRegex ''00:00:00  '' = isMarkerLine ''00:00:00  '' \<and>
   isMarkerLine ''00:00:00  '' \<and>
   \<not> test timestampRegex ''see 00:00:05 now'' \<and>
   inputLines (''at 00:01:00'' @ [LF] @ ''00:20:00'' @ [LF] @ ''see 00:00:05 now'' @ [LF] @
               ''00:00:00  '' @ [LF] @ ''A'') =
     [''at 00:01:00'', ''00:20:00'', ''see 00:00:05 now'', ''00:00:00  '', ''A''] \<and>
   windowContentsOf (''at 00:01:00'' @ [LF] @ ''00:20:00'' @ [LF] @ ''see 00:00:05 now'' @ [LF] @
                     ''00:00:00  '' @ [LF] @ ''A'') 20 =
     Some [(1, [''see 00:00:05 now'']), (0, [''A''])] \<and>
   bucket [(1, [''see 00:00:05 now'']), (0, [''A''])] 1 =
     map snd (filter (\<lambda>p. fst p = 1)
       (taggedContent (20 * 60) 0
          (dropWhile (\<lambda>l. \<not> isMarkerLine l)
             [''at 00:01:00'', ''00:20:00'', ''see 00:00:05 now'', ''00:00:00  '', ''A'']))) \<and>
   map snd (filter (\<lambda>p. fst p = 1)
       (taggedContent (20 * 60) 0
          (dropWhile (\<lambda>l. \<not> isMarkerLine l)
             [''at 00:01:00'', ''00:20:00'', ''see 00:00:05 now'', ''00:00:00  '', ''A'']))) =
     [''see 00:00:05 now'']"
proof -
  let ?raw = "''at 00:01:00'' @ [LF] @ ''00:20:00'' @ [LF] @ ''see 00:00:05 now'' @ [LF] @
               ''00:00:00  '' @ [LF] @ ''A''"
  let ?ls = "[''at 00:01:00'', ''00:20:00'', ''see 00:00:05 now'', ''00:00:00  '', ''A'']"
  let ?wc = "[(1::nat, [''see 00:00:05 now'']), (0, [''A''])]"
  have p: "(0::nat) < 20" by simp
  note inst = lines_treated_by_exact_format [OF p, of ?raw]
  note m1 = inst [THEN conjunct1, THEN spec, of "''00:00:00  ''"]
  have m2: "isMarkerLine ''00:00:00  ''"
    by code_simp
  have k: "isClockText ''00:00:05'' \<and> (''see '' \<noteq> [] \<or> \<not> list_all isWhiteSpace '' now'')"
    by code_simp
  from inst [THEN conjunct2, THEN conjunct1, THEN spec, THEN spec, THEN spec, THEN mp, OF k]
  have m3: "\<not> test timestampRegex ''see 00:00:05 now''"
    by simp
  have l: "inputLines ?raw = ?ls"
    by code_simp
  have c: "windowContentsOf ?raw 20 = Some ?wc"
    by code_simp
  from inst [THEN conjunct2, THEN conjunct2] obtain ws wc where
    c': "windowContentsOf ?raw 20 = Some wc" and
    b: "\<forall>k. bucket wc k =
             map snd (filter (\<lambda>p. fst p = k)
               (taggedContent (20 * 60) 0 (dropWhile (\<lambda>l. \<not> isMarkerLine l) (inputLines ?raw))))"
    by (elim exE conjE)
  from c c' have "wc = ?wc"
    by simp
  with b [THEN spec, of 1] have m4: "bucket ?wc 1 =
     map snd (filter (\<lambda>p. fst p = 1)
       (taggedContent (20 * 60) 0 (dropWhile (\<lambda>l. \<not> isMarkerLine l) ?ls)))"
    by (simp only: l)
  have m5: "map snd (filter (\<lambda>p. fst p = 1)
       (taggedContent (20 * 60) 0 (dropWhile (\<lambda>l. \<not> isMarkerLine l) ?ls))) =
     [''see 00:00:05 now'']"
    by code_simp
  show ?thesis
    by (rule conjI [OF p conjI [OF m1 conjI [OF m2 conjI [OF m3 conjI [OF l conjI [OF c
          conjI [OF m4 m5]]]]]]])
qed

text \<open>
  Claim C2 as stated fails at the lines of the line-ending-normalised input. Of the two
  lines \<open> 00:01:00\<close> and \<open>x\<close>, the first starts with a space and is not of the format, yet
  after the trim of the whole input the routine finds its first marker there: \<open>x\<close> lands in
  bucket 0. And the line \<open>at 00:01:00\<close>, which holds a clock text, is not content of any
  bucket when it stands before the first marker: it is dropped with the header.
\<close>

theorem raw_line_format_counterexample:
  "rawLines ('' 00:01:00'' @ [LF] @ ''x'') = ['' 00:01:00'', ''x''] \<and>
   \<not> isMarkerLine '' 00:01:00'' \<and> \<not> test timestampRegex '' 00:01:00'' \<and>
   inputLines ('' 00:01:00'' @ [LF] @ ''x'') = [''00:01:00'', ''x''] \<and>
   firstTimestampIndex (inputLines ('' 00:01:00'' @ [LF] @ ''x'')) = Some 0 \<and>
   windowContentsOf ('' 00:01:00'' @ [LF] @ ''x'') 20 = Some [(0, [''x''])] \<and>
   rawLines (''at 00:01:00'' @ [LF] @ ''00:20:00'' @ [LF] @ ''x'') =
     [''at 00:01:00'', ''00:20:00'', ''x''] \<and>
   \<not> test timestampRegex ''at 00:01:00'' \<and>
   windowContentsOf (''at 00:01:00'' @ [LF] @ ''00:20:00'' @ [LF] @ ''x'') 20 =
     Some [(1, [''x''])]"
  by code_simp

text \<open>
  Claim C3. For a strictly positive window length the routine returns its windows in strictly
  increasing order of \<open>index\<close>; no two windows have the same \<open>index\<close>.
\<close>

theorem windows_strictly_increasing:
  assumes "0 < windowMinutes"
  shows "\<exists>ws. splitTranscriptIntoWindows raw windowMinutes = Some ws \<and>
           sorted_wrt (<) (map index_w ws) \<and> distinct (map index_w ws)"
proof -
  from split_pipeline [OF assms, of raw] obtain wc where
    s: "splitTranscriptIntoWindows raw windowMinutes =
          Some (sort_key index_w (buildWindows (mulD windowMinutes 60) (entries wc)))" and
    d: "distinct (map fst wc)"
    by blast
  from d have "sorted_wrt (<)
      (map index_w (sort_key index_w (buildWindows (mulD windowMinutes 60) (entries wc))))"
    by (rule windows_strictly_sorted)
  with s show ?thesis
    by (simp add: strict_sorted_iff)
qed

theorem windows_strictly_increasing_witness:
  "(0::nat) < 20 \<and>
   splitTranscriptIntoWindows
     (''00:20:00'' @ [LF] @ ''B'' @ [LF] @ ''00:00:00'' @ [LF] @ ''A'' @ [LF] @ ''00:21:00'' @
      [LF] @ ''C'') 20 =
     Some [\<lparr>index_w = 0, from_w = Some ''00:00:00'', to_w = Some ''00:19:59'',
                   text_w = ''A''\<rparr>,
           \<lparr>index_w = 1, from_w = Some ''00:20:00'', to_w = Some ''00:39:59'',
              text_w = ''B'' @ [LF] @ ''C''\<rparr>] \<and>
   sorted_wrt (<) [0::nat, 1] \<and> distinct [0::nat, 1]"
proof -
  let ?raw = "''00:20:00'' @ [LF] @ ''B'' @ [LF] @ ''00:00:00'' @ [LF] @ ''A'' @ [LF] @
      ''00:21:00'' @ [LF] @ ''C''"
  have e: "splitTranscriptIntoWindows ?raw 20 =
     Some [\<lparr>index_w = 0, from_w = Some ''00:00:00'', to_w = Some ''00:19:59'',
                   text_w = ''A''\<rparr>,
           \<lparr>index_w = 1, from_w = Some ''00:20:00'', to_w = Some ''00:39:59'',
              text_w = ''B'' @ [LF] @ ''C''\<rparr>]"
    by code_simp
  have p: "(0::nat) < 20" by simp
  from windows_strictly_increasing [OF p, of ?raw] e
  have x: "sorted_wrt (<) [0::nat, 1] \<and> distinct [0::nat, 1]"
    by simp
  show ?thesis by (rule conjI [OF p conjI [OF e x]])
qed

text \<open>
  Claim C4, as the code has it. When no line of the trimmed, line-ending-normalised input is a
  timestamp marker, the routine returns the empty sequence, whatever the window length; the
  value \<open>Some []\<close> is a normal return, not a failure.
\<close>

theorem no_timestamp_no_windows:
  assumes "\<forall>l\<in>set (inputLines raw). \<not> test timestampRegex l"
  shows "splitTranscriptIntoWindows raw windowMinutes = Some []"
proof -
  from assms have "firstTimestampIndex (inputLines raw) = None"
    by (simp only: firstTimestampIndex_None)
  then show ?thesis
    by (simp add: split_no_timestamp)
qed

theorem no_timestamp_no_windows_witness:
  "inputLines ''just some text'' = [''just some text''] \<and>
   \<not> test timestampRegex ''just some text'' \<and>
   splitTranscriptIntoWindows ''just some text'' 20 = Some []"
proof -
  have l: "inputLines ''just some text'' = [''just some text'']"
    by code_simp
  have t: "\<not> test timestampRegex ''just some text''"
    by code_simp
  from l t have "\<forall>l\<in>set (inputLines ''just some text''). \<not> test timestampRegex l"
    by simp
  from no_timestamp_no_windows [OF this, of 20]
  have x: "splitTranscriptIntoWindows ''just some text'' 20 = Some []" .
  show ?thesis by (rule conjI [OF l conjI [OF t x]])
qed

text \<open>
  Claim C4 as stated fails: the lines are taken after the whole input is trimmed. Neither
  of the two lines \<open> 00:01:00\<close> and \<open>x\<close> of an input matches the pattern, since the first
  one starts with a space; the trim removes that space and the routine returns a window.
\<close>

theorem no_matching_raw_line_counterexample:
  "rawLines ('' 00:01:00'' @ [LF] @ ''x'') = ['' 00:01:00'', ''x''] \<and>
   \<not> test timestampRegex '' 00:01:00'' \<and> \<not> test timestampRegex ''x'' \<and>
   splitTranscriptIntoWindows ('' 00:01:00'' @ [LF] @ ''x'') 20 =
     Some [\<lparr>index_w = 0, from_w = Some ''00:00:00'', to_w = Some ''00:19:59'',
             text_w = ''x''\<rparr>]"
  by code_simp

text \<open>
  Claim C5. With a strictly positive window length, the text of every returned window is the
  bucket of its index with every maximal run of blank lines collapsed to one empty line, joined
  with newlines and trimmed. The loop of the source computes that collapse: the lines that
  are not blank are kept unchanged and in their order, and three blank lines in a row after a
  line of text leave exactly one empty line.
\<close>

theorem blank_runs_collapse:
  assumes "0 < windowMinutes"
  shows "(\<exists>ws wc. splitTranscriptIntoWindows raw windowMinutes = Some ws \<and>
            windowContentsOf raw windowMinutes = Some wc \<and>
            (\<forall>w\<in>set ws.
               text_w w = trim (join [LF] (collapseBlankRuns (bucket wc (index_w w)))))) \<and>
         processLines False ls = collapseBlankRuns ls \<and>
         filter (\<lambda>l. \<not> isBlank l) (processLines False ls) = filter (\<lambda>l. \<not> isBlank l) ls \<and>
         (\<not> isBlank a \<and> isBlank e1 \<and> isBlank e2 \<and> isBlank e3 \<and> \<not> isBlank b \<longrightarrow>
            processLines False (pre @ a # e1 # e2 # e3 # b # post) =
              processLines False pre @ a # [] # b # processLines False post)"
proof -
  from split_pipeline [OF assms, of raw] obtain wc where
    c: "windowContentsOf raw windowMinutes = Some wc" and
    s: "splitTranscriptIntoWindows raw windowMinutes =
          Some (sort_key index_w (buildWindows (mulD windowMinutes 60) (entries wc)))" and
    d: "distinct (map fst wc)"
    by blast
  let ?ws = "sort_key index_w (buildWindows (mulD windowMinutes 60) (entries wc))"
  have t: "\<forall>w\<in>set ?ws.
             text_w w = trim (join [LF] (collapseBlankRuns (bucket wc (index_w w))))"
  proof
    fix w
    assume "w \<in> set ?ws"
    from pipeline_window(1) [OF d this]
    show "text_w w = trim (join [LF] (collapseBlankRuns (bucket wc (index_w w))))"
      by (simp add: windowText_def processLines_collapse)
  qed
  have 1: "\<exists>ws wc. splitTranscriptIntoWindows raw windowMinutes = Some ws \<and>
            windowContentsOf raw windowMinutes = Some wc \<and>
            (\<forall>w\<in>set ws.
               text_w w = trim (join [LF] (collapseBlankRuns (bucket wc (index_w w)))))"
    using s c t by (intro exI [of _ ?ws] exI [of _ wc] conjI)
  have 2: "processLines False ls = collapseBlankRuns ls"
    by (simp add: processLines_collapse)
  have 3: "filter (\<lambda>l. \<not> isBlank l) (processLines False ls) = filter (\<lambda>l. \<not> isBlank l) ls"
    by (rule processLines_keeps_text)
  have 4: "\<not> isBlank a \<and> isBlank e1 \<and> isBlank e2 \<and> isBlank e3 \<and> \<not> isBlank b \<longrightarrow>
            processLines False (pre @ a # e1 # e2 # e3 # b # post) =
              processLines False pre @ a # [] # b # processLines False post"
  proof
    assume h: "\<not> isBlank a \<and> isBlank e1 \<and> isBlank e2 \<and> isBlank e3 \<and> \<not> isBlank b"
    then have "\<not> isBlank a" by simp
    then have "processLines False (pre @ a # e1 # e2 # e3 # b # post) =
        processLines False pre @ a # processLines False (e1 # e2 # e3 # b # post)"
      by (rule processLines_after_text)
    also from h have "processLines False (e1 # e2 # e3 # b # post) =
        [] # b # processLines False post"
      by (intro processLines_three_blank) simp_all
    finally show "processLines False (pre @ a # e1 # e2 # e3 # b # post) =
              processLines False pre @ a # [] # b # processLines False post" .
  qed
  show ?thesis
    by (rule conjI [OF 1 conjI [OF 2 conjI [OF 3 4]]])
qed

theorem blank_runs_collapse_witness:
  "(0::nat) < 20 \<and>
   splitTranscriptIntoWindows
     (''00:00:00'' @ [LF] @ ''A'' @ [LF] @ [LF] @ '' '' @ [LF] @ [LF] @ ''B'') 20 =
     Some [\<lparr>index_w = 0, from_w = Some ''00:00:00'', to_w = Some ''00:19:59'',
             text_w = ''A'' @ [LF] @ [LF] @ ''B''\<rparr>] \<and>
   windowContentsOf
     (''00:00:00'' @ [LF] @ ''A'' @ [LF] @ [LF] @ '' '' @ [LF] @ [LF] @ ''B'') 20 =
     Some [(0, [''A'', [], '' '', [], ''B''])] \<and>
   ''A'' @ [LF] @ [LF] @ ''B'' =
     trim (join [LF] (collapseBlankRuns (bucket [(0, [''A'', [], '' '', [], ''B''])] 0))) \<and>
   processLines False [''A'', [], '' '', [], ''B''] = [''A'', [], ''B'']"
proof -
  let ?raw = "''00:00:00'' @ [LF] @ ''A'' @ [LF] @ [LF] @ '' '' @ [LF] @ [LF] @ ''B''"
  let ?w = "\<lparr>index_w = 0, from_w = Some ''00:00:00'', to_w = Some ''00:19:59'',
             text_w = ''A'' @ [LF] @ [LF] @ ''B''\<rparr>"
  let ?wc = "[(0::nat, [''A'', [], '' '', [], ''B''])]"
  have p: "(0::nat) < 20" by simp
  have e: "splitTranscriptIntoWindows ?raw 20 = Some [?w]"
    by code_simp
  have c: "windowContentsOf ?raw 20 = Some ?wc"
    by code_simp
  have k: "\<not> isBlank ''A'' \<and> isBlank [] \<and> isBlank '' '' \<and> isBlank [] \<and> \<not> isBlank ''B''"
    by code_simp
  note inst = blank_runs_collapse [OF p, of ?raw "[]" "''A''" "[]" "'' ''" "[]" "''B''" "[]" "[]"]
  from inst e c
  have 1: "''A'' @ [LF] @ [LF] @ ''B'' = trim (join [LF] (collapseBlankRuns (bucket ?wc 0)))"
    by simp
  from inst k have 2: "processLines False [''A'', [], '' '', [], ''B''] = [''A'', [], ''B'']"
    by simp
  show ?thesis
    by (rule conjI [OF p conjI [OF e conjI [OF c conjI [OF 1 2]]]])
qed

text \<open>
  Claim C6. With a strictly positive window length, every returned window has a non-empty
  text, which is the cleaned text of the bucket of its index; a bucket that holds nothing
  but blank lines (or nothing at all) gives no window, and every bucket with a non-empty
  cleaned text gives one. Marker lines never reach a bucket: \<open>00:05:00\<close> directly followed
  by \<open>00:25:00\<close> gives no window for index 0.
\<close>

theorem empty_windows_omitted:
  assumes "0 < windowMinutes"
  shows "(\<exists>ws wc. splitTranscriptIntoWindows raw windowMinutes = Some ws \<and>
            windowContentsOf raw windowMinutes = Some wc \<and>
            (\<forall>w\<in>set ws. text_w w \<noteq> [] \<and> text_w w = windowText (bucket wc (index_w w))) \<and>
            (\<forall>k. list_all isBlank (bucket wc k) \<longrightarrow> (\<forall>w\<in>set ws. index_w w \<noteq> k)) \<and>
            (\<forall>k. windowText (bucket wc k) \<noteq> [] \<longrightarrow> (\<exists>w\<in>set ws. index_w w = k))) \<and>
         splitTranscriptIntoWindows (''00:05:00'' @ [LF] @ ''00:25:00'') 20 = Some [] \<and>
         splitTranscriptIntoWindows (''00:05:00'' @ [LF] @ ''00:25:00'' @ [LF] @ ''Later'') 20 =
           Some [\<lparr>index_w = 1, from_w = Some ''00:20:00'', to_w = Some ''00:39:59'',
                         text_w = ''Later''\<rparr>]"
proof -
  from split_pipeline [OF assms, of raw] obtain wc where
    c: "windowContentsOf raw windowMinutes = Some wc" and
    s: "splitTranscriptIntoWindows raw windowMinutes =
          Some (sort_key index_w (buildWindows (mulD windowMinutes 60) (entries wc)))" and
    d: "distinct (map fst wc)"
    by blast
  let ?ws = "sort_key index_w (buildWindows (mulD windowMinutes 60) (entries wc))"
  have a: "\<forall>w\<in>set ?ws. text_w w \<noteq> [] \<and> text_w w = windowText (bucket wc (index_w w))"
    using pipeline_window [OF d] by (intro ballI conjI)
  have b: "\<forall>k. list_all isBlank (bucket wc k) \<longrightarrow> (\<forall>w\<in>set ?ws. index_w w \<noteq> k)"
  proof (intro allI impI ballI)
    fix k w
    assume k: "list_all isBlank (bucket wc k)" and w: "w \<in> set ?ws"
    show "index_w w \<noteq> k"
    proof
      assume "index_w w = k"
      with pipeline_window(1,2) [OF d w] have "windowText (bucket wc k) \<noteq> []"
        by simp
      with windowText_blank [OF k] show False by simp
    qed
  qed
  have e: "\<forall>k. windowText (bucket wc k) \<noteq> [] \<longrightarrow> (\<exists>w\<in>set ?ws. index_w w = k)"
    using pipeline_complete by (intro allI impI)
  have 1: "\<exists>ws wc. splitTranscriptIntoWindows raw windowMinutes = Some ws \<and>
            windowContentsOf raw windowMinutes = Some wc \<and>
            (\<forall>w\<in>set ws. text_w w \<noteq> [] \<and> text_w w = windowText (bucket wc (index_w w))) \<and>
            (\<forall>k. list_all isBlank (bucket wc k) \<longrightarrow> (\<forall>w\<in>set ws. index_w w \<noteq> k)) \<and>
            (\<forall>k. windowText (bucket wc k) \<noteq> [] \<longrightarrow> (\<exists>w\<in>set ws. index_w w = k))"
    using s c a b e by (intro exI [of _ ?ws] exI [of _ wc] conjI)
  have 2: "splitTranscriptIntoWindows (''00:05:00'' @ [LF] @ ''00:25:00'') 20 = Some []"
    by code_simp
  have 3: "splitTranscriptIntoWindows
             (''00:05:00'' @ [LF] @ ''00:25:00'' @ [LF] @ ''Later'') 20 =
           Some [\<lparr>index_w = 1, from_w = Some ''00:20:00'', to_w = Some ''00:39:59'',
                         text_w = ''Later''\<rparr>]"
    by code_simp
  show ?thesis
    by (rule conjI [OF 1 conjI [OF 2 3]])
qed

theorem empty_windows_omitted_witness:
  "(0::nat) < 20 \<and>
   splitTranscriptIntoWindows (''00:00:00'' @ [LF] @ ''  '' @ [LF] @ ''00:20:00'' @ [LF] @ ''B'') 20 =
     Some [\<lparr>index_w = 1, from_w = Some ''00:20:00'', to_w = Some ''00:39:59'',
                   text_w = ''B''\<rparr>] \<and>
   windowContentsOf (''00:00:00'' @ [LF] @ ''  '' @ [LF] @ ''00:20:00'' @ [LF] @ ''B'') 20 =
     Some [(0, [''  '']), (1, [''B''])] \<and>
   list_all isBlank (bucket [(0, [''  '']), (1, [''B''])] 0) \<and>
   index_w \<lparr>index_w = 1, from_w = Some ''00:20:00'', to_w = Some ''00:39:59'',
   text_w = ''B''\<rparr> \<noteq> 0 \<and>
   windowText (bucket [(0, [''  '']), (1, [''B''])] 1) \<noteq> []"
proof -
  let ?raw = "''00:00:00'' @ [LF] @ ''  '' @ [LF] @ ''00:20:00'' @ [LF] @ ''B''"
  let ?w = "\<lparr>index_w = 1, from_w = Some ''00:20:00'', to_w = Some ''00:39:59'',
                    text_w = ''B''\<rparr>"
  let ?wc = "[(0::nat, [''  '']), (1, [''B''])]"
  have p: "(0::nat) < 20" by simp
  have e: "splitTranscriptIntoWindows ?raw 20 = Some [?w]"
    by code_simp
  have c: "windowContentsOf ?raw 20 = Some ?wc"
    by code_simp
  have k: "list_all isBlank (bucket ?wc 0)"
    by code_simp
  from empty_windows_omitted [OF p, of ?raw] e c
  have a: "(\<forall>w\<in>set [?w]. text_w w \<noteq> [] \<and> text_w w = windowText (bucket ?wc (index_w w)))"
    and b: "\<forall>k. list_all isBlank (bucket ?wc k) \<longrightarrow> (\<forall>w\<in>set [?w]. index_w w \<noteq> k)"
    by simp_all
  from b k have 1: "index_w ?w \<noteq> 0"
    by simp
  from a have 2: "windowText (bucket ?wc 1) \<noteq> []"
    by simp
  show ?thesis
    by (rule conjI [OF p conjI [OF e conjI [OF c conjI [OF k conjI [OF 1 2]]]]])
qed

text \<open>
  Claim C7, as the code has it. For every returned window whose bucket ends at or below
  \<open>2^53\<close> seconds, that is \<open>(index + 1) * windowMinutes * 60 \<le> 2^53\<close>, the fields \<open>from\<close> and
  \<open>to\<close> are texts, and the seconds they encode satisfy
  \<open>to = from + windowMinutes * 60 - 1\<close>, that is \<open>to - from + 1 = windowMinutes * 60\<close>.
\<close>

theorem window_span_is_duration:
  assumes "0 < windowMinutes"
  shows "\<exists>ws. splitTranscriptIntoWindows raw windowMinutes = Some ws \<and>
           (\<forall>w\<in>set ws. (index_w w + 1) * (windowMinutes * 60) \<le> 2 ^ 53 \<longrightarrow>
              (\<exists>fs ts f t. from_w w = Some fs \<and> to_w w = Some ts \<and>
                 hhmmssToSeconds fs = Some f \<and> hhmmssToSeconds ts = Some t \<and>
                 t = f + windowMinutes * 60 - 1 \<and> t - f + 1 = windowMinutes * 60))"
proof -
  from split_pipeline [OF assms, of raw] obtain wc where
    s: "splitTranscriptIntoWindows raw windowMinutes =
          Some (sort_key index_w (buildWindows (mulD windowMinutes 60) (entries wc)))" and
    d: "distinct (map fst wc)"
    by blast
  let ?ws = "sort_key index_w (buildWindows (mulD windowMinutes 60) (entries wc))"
  let ?wds = "windowMinutes * 60"
  from assms have p: "0 < ?wds" by simp
  have "\<exists>fs ts f t. from_w w = Some fs \<and> to_w w = Some ts \<and>
                 hhmmssToSeconds fs = Some f \<and> hhmmssToSeconds ts = Some t \<and>
                 t = f + ?wds - 1 \<and> t - f + 1 = ?wds"
    if w: "w \<in> set ?ws" and b: "(index_w w + 1) * ?wds \<le> 2 ^ 53" for w
  proof -
    let ?f = "index_w w * ?wds"
    let ?t = "index_w w * ?wds + ?wds - 1"
    from b have "?wds \<le> 2 ^ 53"
      by (simp add: add_mult_distrib)
    then have r: "mulD windowMinutes 60 = ?wds"
      by (simp only: mulD_def roundD_small)
    from pipeline_window(3,4) [OF d w] have
      "from_w w = fst (windowBounds ?wds (index_w w))"
      "to_w w = snd (windowBounds ?wds (index_w w))"
      by (simp_all only: r)
    with windowBounds_exact(1) [OF b p] have
      ft: "from_w w = secondsToHHMMSS ?f" "to_w w = secondsToHHMMSS ?t"
      by simp_all
    from windowBounds_exact(2) [OF b p] have lt: "?t < numberLimit" .
    with p have lf: "?f < numberLimit"
      by linarith
    from secondsToHHMMSS_text [OF lf] obtain fs where
      fs: "secondsToHHMMSS ?f = Some fs" "hhmmssToSeconds fs = Some ?f"
      by blast
    from secondsToHHMMSS_text [OF lt] obtain ts where
      ts: "secondsToHHMMSS ?t = Some ts" "hhmmssToSeconds ts = Some ?t"
      by blast
    from p have a: "?t = ?f + ?wds - 1" "?t - ?f + 1 = ?wds"
      by simp_all
    from ft fs ts a show ?thesis
      by (intro exI [of _ fs] exI [of _ ts] exI [of _ ?f] exI [of _ ?t] conjI) simp_all
  qed
  then have "\<forall>w\<in>set ?ws. (index_w w + 1) * ?wds \<le> 2 ^ 53 \<longrightarrow>
              (\<exists>fs ts f t. from_w w = Some fs \<and> to_w w = Some ts \<and>
                 hhmmssToSeconds fs = Some f \<and> hhmmssToSeconds ts = Some t \<and>
                 t = f + ?wds - 1 \<and> t - f + 1 = ?wds)"
    by (intro ballI impI)
  with s show ?thesis
    by (intro exI conjI)
qed

theorem window_span_is_duration_witness:
  "(0::nat) < 20 \<and>
   splitTranscriptIntoWindows (''00:20:00'' @ [LF] @ ''B'') 20 =
     Some [\<lparr>index_w = 1, from_w = Some ''00:20:00'', to_w = Some ''00:39:59'',
             text_w = ''B''\<rparr>] \<and>
   ((1::nat) + 1) * (20 * 60) \<le> 2 ^ 53 \<and>
   (\<exists>fs ts f t. Some ''00:20:00'' = Some fs \<and> Some ''00:39:59'' = Some ts \<and>
      hhmmssToSeconds fs = Some f \<and> hhmmssToSeconds ts = Some t \<and>
      t = f + 20 * 60 - 1 \<and> t - f + 1 = 20 * 60)"
proof -
  let ?raw = "''00:20:00'' @ [LF] @ ''B''"
  let ?w = "\<lparr>index_w = 1, from_w = Some ''00:20:00'', to_w = Some ''00:39:59'',
             text_w = ''B''\<rparr>"
  have e: "splitTranscriptIntoWindows ?raw 20 = Some [?w]"
    by code_simp
  have p: "(0::nat) < 20" by simp
  have b: "((1::nat) + 1) * (20 * 60) \<le> 2 ^ 53" by simp
  from window_span_is_duration [OF p, of ?raw] obtain ws where
    s: "splitTranscriptIntoWindows ?raw 20 = Some ws" and
    a: "\<forall>w\<in>set ws. (index_w w + 1) * (20 * 60) \<le> 2 ^ 53 \<longrightarrow>
              (\<exists>fs ts f t. from_w w = Some fs \<and> to_w w = Some ts \<and>
                 hhmmssToSeconds fs = Some f \<and> hhmmssToSeconds ts = Some t \<and>
                 t = f + 20 * 60 - 1 \<and> t - f + 1 = 20 * 60)"
    by (elim exE conjE)
  from s e have "?w \<in> set ws"
    by simp
  note x = bspec [OF a this, unfolded window.select_convs, THEN mp, OF b]
  show ?thesis
    by (rule conjI [OF p conjI [OF e conjI [OF b x]]])
qed

text \<open>
  Claim C7 as stated fails for a window length whose seconds exceed \<open>2^53\<close>: the source
  computes \<open>fromSeconds + windowDurationSeconds - 1\<close> in doubles. With
  \<open>windowMinutes = 150119987579017\<close> the window length is \<open>2^53 + 28\<close> seconds, and
  \<open>2^53 + 27\<close> is rounded to \<open>2^53 + 28\<close>: \<open>to\<close> encodes as many seconds as the window is
  long, one more than \<open>from + windowMinutes * 60 - 1\<close>.
\<close>

theorem window_span_rounded_counterexample:
  "splitTranscriptIntoWindows (''00:00:00'' @ [LF] @ ''x'') 150119987579017 =
     Some [\<lparr>index_w = 0, from_w = Some ''00:00:00'', to_w = Some ''2501999792983:37:00'',
             text_w = ''x''\<rparr>] \<and>
   hhmmssToSeconds ''00:00:00'' = Some 0 \<and>
   hhmmssToSeconds ''2501999792983:37:00'' = Some 9007199254741020 \<and>
   (9007199254741020::nat) \<noteq> 0 + 150119987579017 * 60 - 1"
  by code_simp

text \<open>
  Claim C8, as the code has it. With a strictly positive window length, the \<open>from\<close> and \<open>to\<close>
  fields of every returned window are computed from the window's \<open>index\<close> and the window
  length alone, never from the timestamps of the content. For a window whose bucket ends at
  or below \<open>2^53\<close> seconds, \<open>from\<close> is the \<open>secondsToHHMMSS\<close> text of
  \<open>index * windowMinutes * 60\<close> and \<open>to\<close> that of the last second of the bucket, and
  \<open>hhmmssToSeconds\<close> reads both numbers back. Each is a clock text with two-digit minutes
  and seconds and an hours field of at least two digits; the hours field has exactly two
  digits when the bucket ends within the first 360000 seconds.
\<close>

theorem window_bounds_from_index:
  assumes "0 < windowMinutes"
  shows "\<exists>ws. splitTranscriptIntoWindows raw windowMinutes = Some ws \<and>
           (\<forall>w\<in>set ws.
              (from_w w, to_w w) = windowBounds (mulD windowMinutes 60) (index_w w) \<and>
              ((index_w w + 1) * (windowMinutes * 60) \<le> 2 ^ 53 \<longrightarrow>
                 (\<exists>fs ts. from_w w = Some fs \<and> to_w w = Some ts \<and>
                    secondsToHHMMSS (index_w w * (windowMinutes * 60)) = Some fs \<and>
                    secondsToHHMMSS
                      (index_w w * (windowMinutes * 60) + windowMinutes * 60 - 1) = Some ts \<and>
                    hhmmssToSeconds fs = Some (index_w w * (windowMinutes * 60)) \<and>
                    hhmmssToSeconds ts =
                      Some (index_w w * (windowMinutes * 60) + windowMinutes * 60 - 1) \<and>
                    isPaddedClockText fs \<and> isPaddedClockText ts \<and>
                    ((index_w w + 1) * (windowMinutes * 60) \<le> 360000 \<longrightarrow>
                       isClockText fs \<and> isClockText ts))))"
proof -
  from split_pipeline [OF assms, of raw] obtain wc where
    s: "splitTranscriptIntoWindows raw windowMinutes =
          Some (sort_key index_w (buildWindows (mulD windowMinutes 60) (entries wc)))" and
    d: "distinct (map fst wc)"
    by blast
  let ?ws = "sort_key index_w (buildWindows (mulD windowMinutes 60) (entries wc))"
  let ?wds = "windowMinutes * 60"
  from assms have p: "0 < ?wds" by simp
  have u: "(from_w w, to_w w) = windowBounds (mulD windowMinutes 60) (index_w w)"
    if w: "w \<in> set ?ws" for w
    using pipeline_window(3,4) [OF d w] by simp
  have v: "\<exists>fs ts. from_w w = Some fs \<and> to_w w = Some ts \<and>
             secondsToHHMMSS (index_w w * ?wds) = Some fs \<and>
             secondsToHHMMSS (index_w w * ?wds + ?wds - 1) = Some ts \<and>
             hhmmssToSeconds fs = Some (index_w w * ?wds) \<and>
             hhmmssToSeconds ts = Some (index_w w * ?wds + ?wds - 1) \<and>
             isPaddedClockText fs \<and> isPaddedClockText ts \<and>
             ((index_w w + 1) * ?wds \<le> 360000 \<longrightarrow> isClockText fs \<and> isClockText ts)"
    if w: "w \<in> set ?ws" and b: "(index_w w + 1) * ?wds \<le> 2 ^ 53" for w
  proof -
    let ?f = "index_w w * ?wds"
    let ?t = "index_w w * ?wds + ?wds - 1"
    from b have "?wds \<le> 2 ^ 53"
      by (simp add: add_mult_distrib)
    then have r: "mulD windowMinutes 60 = ?wds"
      by (simp only: mulD_def roundD_small)
    from pipeline_window(3,4) [OF d w] have
      "from_w w = fst (windowBounds ?wds (index_w w))"
      "to_w w = snd (windowBounds ?wds (index_w w))"
      by (simp_all only: r)
    with windowBounds_exact(1) [OF b p] have
      ft: "from_w w = secondsToHHMMSS ?f" "to_w w = secondsToHHMMSS ?t"
      by simp_all
    from windowBounds_exact(2) [OF b p] have lt: "?t < numberLimit" .
    with p have lf: "?f < numberLimit"
      by linarith
    from secondsToHHMMSS_text [OF lf] obtain fs where
      fs: "secondsToHHMMSS ?f = Some fs" "hhmmssToSeconds fs = Some ?f" "isPaddedClockText fs"
        "?f < 360000 \<longrightarrow> isClockText fs"
      by blast
    from secondsToHHMMSS_text [OF lt] obtain ts where
      ts: "secondsToHHMMSS ?t = Some ts" "hhmmssToSeconds ts = Some ?t" "isPaddedClockText ts"
        "?t < 360000 \<longrightarrow> isClockText ts"
      by blast
    have c: "(index_w w + 1) * ?wds \<le> 360000 \<longrightarrow> isClockText fs \<and> isClockText ts"
    proof
      assume "(index_w w + 1) * ?wds \<le> 360000"
      then have "?f + ?wds \<le> 360000"
        by (simp add: add_mult_distrib)
      with p have "?f < 360000" "?t < 360000"
        by linarith+
      with fs(4) ts(4) show "isClockText fs \<and> isClockText ts"
        by simp
    qed
    from ft have "from_w w = Some fs" "to_w w = Some ts"
      by (simp_all only: fs(1) ts(1))
    with fs(1-3) ts(1-3) c show ?thesis
      by (intro exI [of _ fs] exI [of _ ts] conjI)
  qed
  from u v have "\<forall>w\<in>set ?ws.
      (from_w w, to_w w) = windowBounds (mulD windowMinutes 60) (index_w w) \<and>
      ((index_w w + 1) * ?wds \<le> 2 ^ 53 \<longrightarrow>
         (\<exists>fs ts. from_w w = Some fs \<and> to_w w = Some ts \<and>
            secondsToHHMMSS (index_w w * ?wds) = Some fs \<and>
            secondsToHHMMSS (index_w w * ?wds + ?wds - 1) = Some ts \<and>
            hhmmssToSeconds fs = Some (index_w w * ?wds) \<and>
            hhmmssToSeconds ts = Some (index_w w * ?wds + ?wds - 1) \<and>
            isPaddedClockText fs \<and> isPaddedClockText ts \<and>
            ((index_w w + 1) * ?wds \<le> 360000 \<longrightarrow> isClockText fs \<and> isClockText ts)))"
    by (intro ballI conjI impI)
  with s show ?thesis
    by (intro exI [of _ ?ws] conjI)
qed

theorem window_bounds_from_index_witness:
  "(0::nat) < 20 \<and>
   splitTranscriptIntoWindows (''00:47:13'' @ [LF] @ ''B'') 20 =
     Some [\<lparr>index_w = 2, from_w = Some ''00:40:00'', to_w = Some ''00:59:59'',
             text_w = ''B''\<rparr>] \<and>
   (Some ''00:40:00'', Some ''00:59:59'') = windowBounds (mulD 20 60) 2 \<and>
   ((2::nat) + 1) * (20 * 60) \<le> 2 ^ 53 \<and> ((2::nat) + 1) * (20 * 60) \<le> 360000 \<and>
   (\<exists>fs ts. Some ''00:40:00'' = Some fs \<and> Some ''00:59:59'' = Some ts \<and>
      secondsToHHMMSS (2 * (20 * 60)) = Some fs \<and>
      secondsToHHMMSS (2 * (20 * 60) + 20 * 60 - 1) = Some ts \<and>
      hhmmssToSeconds fs = Some (2 * (20 * 60)) \<and>
      hhmmssToSeconds ts = Some (2 * (20 * 60) + 20 * 60 - 1) \<and>
      isPaddedClockText fs \<and> isPaddedClockText ts \<and> isClockText fs \<and> isClockText ts)"
proof -
  let ?raw = "''00:47:13'' @ [LF] @ ''B''"
  let ?w = "\<lparr>index_w = 2, from_w = Some ''00:40:00'', to_w = Some ''00:59:59'',
             text_w = ''B''\<rparr>"
  have p: "(0::nat) < 20" by simp
  have e: "splitTranscriptIntoWindows ?raw 20 = Some [?w]"
    by code_simp
  have b: "((2::nat) + 1) * (20 * 60) \<le> 2 ^ 53" by simp
  have c: "((2::nat) + 1) * (20 * 60) \<le> 360000" by simp
  from window_bounds_from_index [OF p, of ?raw] obtain ws where
    s: "splitTranscriptIntoWindows ?raw 20 = Some ws" and
    a: "\<forall>w\<in>set ws.
          (from_w w, to_w w) = windowBounds (mulD 20 60) (index_w w) \<and>
          ((index_w w + 1) * (20 * 60) \<le> 2 ^ 53 \<longrightarrow>
             (\<exists>fs ts. from_w w = Some fs \<and> to_w w = Some ts \<and>
                secondsToHHMMSS (index_w w * (20 * 60)) = Some fs \<and>
                secondsToHHMMSS (index_w w * (20 * 60) + 20 * 60 - 1) = Some ts \<and>
                hhmmssToSeconds fs = Some (index_w w * (20 * 60)) \<and>
                hhmmssToSeconds ts = Some (index_w w * (20 * 60) + 20 * 60 - 1) \<and>
                isPaddedClockText fs \<and> isPaddedClockText ts \<and>
                ((index_w w + 1) * (20 * 60) \<le> 360000 \<longrightarrow>
                   isClockText fs \<and> isClockText ts)))"
    by (elim exE conjE)
  from s e have "?w \<in> set ws"
    by simp
  note i = bspec [OF a this, unfolded window.select_convs]
  note u = i [THEN conjunct1]
  from i [THEN conjunct2, THEN mp, OF b] obtain fs ts where
    x: "Some ''00:40:00'' = Some fs" "Some ''00:59:59'' = Some ts"
      "secondsToHHMMSS (2 * (20 * 60)) = Some fs"
      "secondsToHHMMSS (2 * (20 * 60) + 20 * 60 - 1) = Some ts"
      "hhmmssToSeconds fs = Some (2 * (20 * 60))"
      "hhmmssToSeconds ts = Some (2 * (20 * 60) + 20 * 60 - 1)"
      "isPaddedClockText fs" "isPaddedClockText ts" and
    y: "(2 + 1) * (20 * 60) \<le> (360000::nat) \<longrightarrow> isClockText fs \<and> isClockText ts"
    by (elim exE conjE)
  note z = y [THEN mp, OF c]
  have v: "\<exists>fs ts. Some ''00:40:00'' = Some fs \<and> Some ''00:59:59'' = Some ts \<and>
      secondsToHHMMSS (2 * (20 * 60)) = Some fs \<and>
      secondsToHHMMSS (2 * (20 * 60) + 20 * 60 - 1) = Some ts \<and>
      hhmmssToSeconds fs = Some (2 * (20 * 60)) \<and>
      hhmmssToSeconds ts = Some (2 * (20 * 60) + 20 * 60 - 1) \<and>
      isPaddedClockText fs \<and> isPaddedClockText ts \<and> isClockText fs \<and> isClockText ts"
    using x z [THEN conjunct1] z [THEN conjunct2]
    by (intro exI [of _ fs] exI [of _ ts] conjI)
  show ?thesis
    by (rule conjI [OF p conjI [OF e conjI [OF u conjI [OF b conjI [OF c v]]]]])
qed

text \<open>
  Claim C8 as stated fails: the hours field is not always two digits. The timestamp
  \<open>99:59:59\<close> with 7-minute windows falls into bucket 857, whose last second is 360359,
  and the \<open>to\<close> field is \<open>100:05:59\<close>.
\<close>

theorem window_bounds_two_digit_hours_counterexample:
  "splitTranscriptIntoWindows (''99:59:59'' @ [LF] @ ''x'') 7 =
     Some [\<lparr>index_w = 857, from_w = Some ''99:59:00'', to_w = Some ''100:05:59'',
             text_w = ''x''\<rparr>] \<and>
   \<not> isClockText ''100:05:59''"
  by code_simp

text \<open>
  Claim C9. The components of a marker line are not checked against the clock ranges: for
  every line that the pattern accepts, \<open>hhmmssToSeconds\<close> returns \<open>H * 3600 + M * 60 + S\<close> for
  its two-digit components, whatever their values, the loop takes the quotient by the window
  length as the current index (the same for \<open>windowMinutes * 60\<close> and for its double, which
  the routine holds), and the routine returns a result. \<open>99:99:99\<close> is accepted and stands
  for 362439 seconds.
\<close>

theorem marker_components_not_validated:
  assumes "0 < windowMinutes" and "test timestampRegex line"
  shows "(\<exists>h1 h2 m1 m2 s1 s2 sp.
            line = [h1, h2, CHR '':'', m1, m2, CHR '':'', s1, s2] @ sp \<and>
            hhmmssToSeconds (trim line) =
              Some (twoDigits h1 h2 * 3600 + twoDigits m1 m2 * 60 + twoDigits s1 s2) \<and>
            lineStep (windowMinutes * 60) line (cur, wc) =
              Some ((twoDigits h1 h2 * 3600 + twoDigits m1 m2 * 60 + twoDigits s1 s2) div
                    (windowMinutes * 60), wc) \<and>
            lineStep (mulD windowMinutes 60) line (cur, wc) =
              Some ((twoDigits h1 h2 * 3600 + twoDigits m1 m2 * 60 + twoDigits s1 s2) div
                    (windowMinutes * 60), wc)) \<and>
         test timestampRegex ''99:99:99'' \<and>
         hhmmssToSeconds (trim ''99:99:99'') = Some 362439 \<and>
         (\<exists>ws. splitTranscriptIntoWindows raw windowMinutes = Some ws)"
proof -
  from assms(2) obtain h1 h2 m1 m2 s1 s2 sp where
    l: "line = [h1, h2, CHR '':'', m1, m2, CHR '':'', s1, s2] @ sp" and
    d: "isDigit h1" "isDigit h2" "isDigit m1" "isDigit m2" "isDigit s1" "isDigit s2" and
    sp: "list_all isWhiteSpace sp"
    using timestamp_matches_shape by blast
  let ?t = "twoDigits h1 h2 * 3600 + twoDigits m1 m2 * 60 + twoDigits s1 s2"
  have s: "hhmmssToSeconds (trim line) = Some ?t"
    unfolding l using d sp by (intro hhmmssToSeconds_marker)
  from assms(1) have p: "0 < windowMinutes * 60" by simp
  have step: "lineStep (windowMinutes * 60) line (cur, wc) =
      Some (?t div (windowMinutes * 60), wc)"
    using assms(2) p s by (rule lineStep_marker)
  from assms(1) have p': "0 < mulD windowMinutes 60"
    by (simp add: mulD_pos)
  have "lineStep (mulD windowMinutes 60) line (cur, wc) =
      Some (?t div mulD windowMinutes 60, wc)"
    using assms(2) p' s by (rule lineStep_marker)
  then have step': "lineStep (mulD windowMinutes 60) line (cur, wc) =
      Some (?t div (windowMinutes * 60), wc)"
    by (simp only: marker_index_of_seconds [OF assms(2) s])
  have 1: "\<exists>h1 h2 m1 m2 s1 s2 sp.
            line = [h1, h2, CHR '':'', m1, m2, CHR '':'', s1, s2] @ sp \<and>
            hhmmssToSeconds (trim line) =
              Some (twoDigits h1 h2 * 3600 + twoDigits m1 m2 * 60 + twoDigits s1 s2) \<and>
            lineStep (windowMinutes * 60) line (cur, wc) =
              Some ((twoDigits h1 h2 * 3600 + twoDigits m1 m2 * 60 + twoDigits s1 s2) div
                    (windowMinutes * 60), wc) \<and>
            lineStep (mulD windowMinutes 60) line (cur, wc) =
              Some ((twoDigits h1 h2 * 3600 + twoDigits m1 m2 * 60 + twoDigits s1 s2) div
                    (windowMinutes * 60), wc)"
    using l s step step'
    by (intro exI [of _ h1] exI [of _ h2] exI [of _ m1] exI [of _ m2] exI [of _ s1]
        exI [of _ s2] exI [of _ sp] conjI)
  have 2: "test timestampRegex ''99:99:99''"
    by code_simp
  have 3: "hhmmssToSeconds (trim ''99:99:99'') = Some 362439"
    by code_simp
  from split_pipeline [OF assms(1), of raw]
  have 4: "\<exists>ws. splitTranscriptIntoWindows raw windowMinutes = Some ws"
    by blast
  show ?thesis
    by (rule conjI [OF 1 conjI [OF 2 conjI [OF 3 4]]])
qed

theorem marker_components_not_validated_witness:
  "(0::nat) < 1 \<and> test timestampRegex ''23:75:99'' \<and>
   hhmmssToSeconds (trim ''23:75:99'') = Some 87399 \<and>
   lineStep (1 * 60) ''23:75:99'' (0, []) = Some (1456, []) \<and>
   splitTranscriptIntoWindows (''23:75:99'' @ [LF] @ ''late'') 1 =
     Some [\<lparr>index_w = 1456, from_w = Some ''24:16:00'', to_w = Some ''24:16:59'',
                   text_w = ''late''\<rparr>]"
proof -
  have p: "(0::nat) < 1" by simp
  have t: "test timestampRegex ''23:75:99''"
    by code_simp
  have h: "hhmmssToSeconds (trim ''23:75:99'') = Some 87399"
    by code_simp
  from marker_components_not_validated [OF p t, of 0 "[]" "''23:75:99'' @ [LF] @ ''late''"]
  obtain h1 h2 m1 m2 s1 s2 sp where
    s: "hhmmssToSeconds (trim ''23:75:99'') =
          Some (twoDigits h1 h2 * 3600 + twoDigits m1 m2 * 60 + twoDigits s1 s2)" and
    l: "lineStep (1 * 60) ''23:75:99'' (0, []) =
          Some ((twoDigits h1 h2 * 3600 + twoDigits m1 m2 * 60 + twoDigits s1 s2) div (1 * 60), [])"
    by blast
  from s h have "twoDigits h1 h2 * 3600 + twoDigits m1 m2 * 60 + twoDigits s1 s2 = 87399"
    by simp
  with l have l': "lineStep (1 * 60) ''23:75:99'' (0, []) = Some (1456, [])"
    by simp
  have e: "splitTranscriptIntoWindows (''23:75:99'' @ [LF] @ ''late'') 1 =
     Some [\<lparr>index_w = 1456, from_w = Some ''24:16:00'', to_w = Some ''24:16:59'',
                   text_w = ''late''\<rparr>]"
    by code_simp
  show ?thesis
    by (rule conjI [OF p conjI [OF t conjI [OF h conjI [OF l' e]]]])
qed



end
